theory Spec2Isabelle
  imports Main "HOL-Library.Sublist" "HOL-Library.Multiset"
begin

section \<open>ytkb: synchronising a YouTrack knowledge base with local markdown files\<close>

text \<open>
  A shallow embedding of the Go packages \<open>api\<close>, \<open>markdown\<close>, \<open>filesystem\<close> and \<open>cmd\<close>.
  Go strings are byte sequences, here \<^typ>\<open>string\<close>. Every call that leaves the
  process (HTTP, the file system, standard input, the YAML library) is a parameter or an
  input value of the function that makes it; what the function prints and what it sends
  to the server is returned as a list of events.
\<close>

subsection \<open>The Go library functions the program calls\<close>

text \<open>
  \<open>strings.Index\<close>: the position of the first occurrence of \<open>sep\<close>, \<open>None\<close> for Go's -1.
\<close>

primrec Index :: "string \<Rightarrow> string \<Rightarrow> nat option" where
  "Index [] sep = (if sep = [] then Some 0 else None)"
| "Index (c # s) sep = (if prefix sep (c # s) then Some 0 else map_option Suc (Index s sep))"

text \<open>
  \<open>strings.ReplaceAll\<close> for a non-empty pattern: the non-overlapping occurrences, from
  the left. (With an empty pattern Go inserts \<open>new\<close> around every rune; the program never
  passes one, and the model then returns the string as it is.)
\<close>

function ReplaceAll :: "string \<Rightarrow> string \<Rightarrow> string \<Rightarrow> string" where
  "ReplaceAll [] old new = []"
| "ReplaceAll (c # s) old new =
     (if old \<noteq> [] \<and> prefix old (c # s)
      then new @ ReplaceAll (drop (length old) (c # s)) old new
      else c # ReplaceAll s old new)"
  by pat_completeness auto
termination
  by (relation "measure (\<lambda>(s, old, new). length s)") auto

text \<open>
  \<open>unicode.IsSpace\<close>, as the UTF-8 encodings of the runes it accepts: the six ASCII
  ones, U+0085, U+00A0, U+1680, U+2000 to U+200A, U+2028, U+2029, U+202F, U+205F, U+3000.
\<close>

definition spaceRunes :: "string list" where
  "spaceRunes =
     [[CHR 0x09], [CHR 0x0A], [CHR 0x0B], [CHR 0x0C], [CHR 0x0D], [CHR 0x20],
      [CHR 0xC2, CHR 0x85], [CHR 0xC2, CHR 0xA0], [CHR 0xE1, CHR 0x9A, CHR 0x80],
      [CHR 0xE2, CHR 0x80, CHR 0x80], [CHR 0xE2, CHR 0x80, CHR 0x81],
      [CHR 0xE2, CHR 0x80, CHR 0x82], [CHR 0xE2, CHR 0x80, CHR 0x83],
      [CHR 0xE2, CHR 0x80, CHR 0x84], [CHR 0xE2, CHR 0x80, CHR 0x85],
      [CHR 0xE2, CHR 0x80, CHR 0x86], [CHR 0xE2, CHR 0x80, CHR 0x87],
      [CHR 0xE2, CHR 0x80, CHR 0x88], [CHR 0xE2, CHR 0x80, CHR 0x89],
      [CHR 0xE2, CHR 0x80, CHR 0x8A], [CHR 0xE2, CHR 0x80, CHR 0xA8],
      [CHR 0xE2, CHR 0x80, CHR 0xA9], [CHR 0xE2, CHR 0x80, CHR 0xAF],
      [CHR 0xE2, CHR 0x81, CHR 0x9F], [CHR 0xE3, CHR 0x80, CHR 0x80]]"

text \<open>
  The number of bytes of the white-space rune the string starts with, or ends with
  (0: it starts, or ends, with something else). A valid UTF-8 encoding is never a proper
  prefix or suffix of another one, so at most one entry of the table matches, and it
  matches exactly when Go's decoder reads that rune at that end of the string.
\<close>

definition spaceAtStart :: "string \<Rightarrow> nat" where
  "spaceAtStart s = (case find (\<lambda>sp. prefix sp s) spaceRunes of None \<Rightarrow> 0 | Some sp \<Rightarrow> length sp)"

definition spaceAtEnd :: "string \<Rightarrow> nat" where
  "spaceAtEnd s = (case find (\<lambda>sp. suffix sp s) spaceRunes of None \<Rightarrow> 0 | Some sp \<Rightarrow> length sp)"

lemma spaceRunes_nonempty: "sp \<in> set spaceRunes \<Longrightarrow> sp \<noteq> []"
  by (auto simp: spaceRunes_def)

lemma spaceAtStart_shorter: "0 < spaceAtStart s \<Longrightarrow> length s - spaceAtStart s < length s"
proof -
  assume a: "0 < spaceAtStart s"
  then obtain sp where f: "find (\<lambda>sp. prefix sp s) spaceRunes = Some sp"
    by (auto simp: spaceAtStart_def split: option.splits)
  then have "sp \<in> set spaceRunes" and "prefix sp s"
    by (auto simp: find_Some_iff)
  then have "sp \<noteq> []" and "length sp \<le> length s"
    by (auto simp: spaceRunes_nonempty prefix_length_le)
  then show ?thesis using a by (cases s) auto
qed

lemma spaceAtEnd_shorter: "0 < spaceAtEnd s \<Longrightarrow> length s - spaceAtEnd s < length s"
proof -
  assume a: "0 < spaceAtEnd s"
  then obtain sp where f: "find (\<lambda>sp. suffix sp s) spaceRunes = Some sp"
    by (auto simp: spaceAtEnd_def split: option.splits)
  then have "sp \<in> set spaceRunes" and "suffix sp s"
    by (auto simp: find_Some_iff)
  then have "sp \<noteq> []" and "length sp \<le> length s"
    by (auto simp: spaceRunes_nonempty suffix_length_le)
  then show ?thesis using a by (cases s) auto
qed

function TrimLeftSpace :: "string \<Rightarrow> string" where
  "TrimLeftSpace s = (if spaceAtStart s = 0 then s else TrimLeftSpace (drop (spaceAtStart s) s))"
  by pat_completeness auto
termination
  by (relation "measure length") (auto simp: spaceAtStart_shorter)

function TrimRightSpace :: "string \<Rightarrow> string" where
  "TrimRightSpace s =
     (if spaceAtEnd s = 0 then s else TrimRightSpace (take (length s - spaceAtEnd s) s))"
  by pat_completeness auto
termination
  by (relation "measure length") (auto simp: spaceAtEnd_shorter)

declare TrimLeftSpace.simps [simp del]
declare TrimRightSpace.simps [simp del]

text \<open>\<open>strings.TrimSpace\<close>: white-space runes removed at both ends.\<close>

definition TrimSpace :: "string \<Rightarrow> string" where
  "TrimSpace s = TrimRightSpace (TrimLeftSpace s)"

text \<open>
  \<open>strings.ToLower\<close>. A string of ASCII bytes is lowered byte by byte; for any other
  string Go maps \<open>unicode.ToLower\<close> over the runes, which is the parameter \<open>uni\<close>.
\<close>

definition isASCII :: "char \<Rightarrow> bool" where
  "isASCII c = ((of_char c :: nat) < 128)"

definition lowerByte :: "char \<Rightarrow> char" where
  "lowerByte c =
     (if (65::nat) \<le> of_char c \<and> (of_char c :: nat) \<le> 90 then char_of (of_char c + (32::nat)) else c)"

definition ToLower :: "(string \<Rightarrow> string) \<Rightarrow> string \<Rightarrow> string" where
  "ToLower uni s = (if list_all isASCII s then map lowerByte s else uni s)"

text \<open>
  Package \<open>path/filepath\<close> with \<open>/\<close> as the separator and no volume names. \<open>Clean\<close> is
  Go's algorithm on the elements of the path: empty elements and \<open>.\<close> go away, \<open>..\<close>
  removes the element before it when there is one that is not \<open>..\<close> itself, stays when
  the path is relative, and goes away at the root; the empty result is \<open>.\<close>.
\<close>

fun splitOn :: "char \<Rightarrow> string \<Rightarrow> string list" where
  "splitOn sep [] = [[]]"
| "splitOn sep (c # s) =
     (if c = sep then [] # splitOn sep s
      else (case splitOn sep s of [] \<Rightarrow> [[c]] | w # ws \<Rightarrow> (c # w) # ws))"

fun joinWith :: "string \<Rightarrow> string list \<Rightarrow> string" where
  "joinWith sep [] = []"
| "joinWith sep [e] = e"
| "joinWith sep (e # es) = e @ sep @ joinWith sep es"

text \<open>The elements kept so far are the second argument, the last one first.\<close>

fun cleanElems :: "bool \<Rightarrow> string list \<Rightarrow> string list \<Rightarrow> string list" where
  "cleanElems rooted out [] = rev out"
| "cleanElems rooted out (e # es) =
     (if e = [] \<or> e = ''.'' then cleanElems rooted out es
      else if e = ''..'' then
        (if out \<noteq> [] \<and> hd out \<noteq> ''..'' then cleanElems rooted (tl out) es
         else if \<not> rooted then cleanElems rooted (''..'' # out) es
         else cleanElems rooted out es)
      else cleanElems rooted (e # out) es)"

definition Clean :: "string \<Rightarrow> string" where
  "Clean path =
     (if path = [] then ''.''
      else let rooted = (hd path = CHR ''/'');
               out = (if rooted then ''/'' else []) @
                     joinWith ''/'' (cleanElems rooted [] (splitOn CHR ''/'' path))
           in if out = [] then ''.'' else out)"

text \<open>\<open>filepath.Dir\<close>: everything up to and including the last separator, cleaned.\<close>

definition Dir :: "string \<Rightarrow> string" where
  "Dir path = Clean (rev (dropWhile (\<lambda>c. c \<noteq> CHR ''/'') (rev path)))"

text \<open>\<open>filepath.Join\<close>: leading empty elements are ignored, the rest joined and cleaned.\<close>

definition Join :: "string list \<Rightarrow> string" where
  "Join elem =
     (case dropWhile (\<lambda>e. e = []) elem of [] \<Rightarrow> [] | es \<Rightarrow> Clean (joinWith ''/'' es))"

text \<open>
  \<open>sort.Slice(x, less)\<close>. The package promises a slice ordered by \<open>less\<close> and no
  stability. The last pass of the library over a piece of the slice is a sort by
  insertion: each element in turn moves to the left while it is \<open>less\<close> than the one
  before it (\<open>sink lessFn x before\<close> is that move of \<open>x\<close>, with the elements before it
  given and returned the nearest first); current versions do nothing else on a slice of
  at most 12 elements. What the library does before (pivots, partitions, a heap sort,
  by version) only moves elements around: \<open>shuffle\<close> stands for it, any rearrangement of
  the slice. The insertion leaves an ordered slice as it is, so that every outcome of
  the library is an outcome of the model for some \<open>shuffle\<close>.
\<close>

fun sink :: "('a \<Rightarrow> 'a \<Rightarrow> bool) \<Rightarrow> 'a \<Rightarrow> 'a list \<Rightarrow> 'a list" where
  "sink lessFn x [] = [x]"
| "sink lessFn x (y # before) = (if lessFn x y then y # sink lessFn x before else x # y # before)"

definition insertionSort :: "('a \<Rightarrow> 'a \<Rightarrow> bool) \<Rightarrow> 'a list \<Rightarrow> 'a list" where
  "insertionSort lessFn xs = rev (foldl (\<lambda>before x. sink lessFn x before) [] xs)"

definition sortSlice :: "('a list \<Rightarrow> 'a list) \<Rightarrow> ('a \<Rightarrow> 'a \<Rightarrow> bool) \<Rightarrow> 'a list \<Rightarrow> 'a list" where
  "sortSlice shuffle lessFn xs = insertionSort lessFn (shuffle xs)"

text \<open>The operator \<open><\<close> on Go strings: the order of the bytes, a proper prefix first.\<close>

fun lessString :: "string \<Rightarrow> string \<Rightarrow> bool" where
  "lessString s [] = False"
| "lessString [] (d # t) = True"
| "lessString (c # s) (d # t) = (if c = d then lessString s t else (of_char c :: nat) < of_char d)"

subsection \<open>Package \<open>api\<close>: the data model\<close>

record Config =
  Token :: string
  cfgURL :: string
  KBKey :: string

text \<open>\<open>ParentID\<close> is a \<open>*string\<close>: \<open>None\<close> is the nil pointer.\<close>

record Article =
  ID :: string
  Title :: string
  Content :: string
  ParentID :: "string option"
  Order :: int
  URL :: string

text \<open>
  The element type of the decoded response in \<open>ListArticles\<close>. \<open>arParent\<close> is the
  identifier inside the optional \<open>parentArticle\<close> object (\<open>None\<close>: no such object).
\<close>

record ArticleResponse =
  arID :: string
  arSummary :: string
  arContent :: string
  arParent :: "string option"
  arProjectID :: string
  arProjectName :: string

datatype api_error =
    RequestFailed string
  | ApiError int string
  | DecodeFailed string

text \<open>
  What the HTTP client hands back to \<open>ListArticles\<close>: the transport fails, or there is a
  status code, the raw body, and what the JSON decoder makes of the body.
\<close>

datatype http_reply =
    TransportFailure string
  | Reply int string "string + ArticleResponse list"

definition StatusOK :: int where
  "StatusOK = 200"

definition TrimSuffix :: "string \<Rightarrow> string \<Rightarrow> string" where
  "TrimSuffix s suf = (if suffix suf s then take (length s - length suf) s else s)"

text \<open>The body of the conversion loop of \<open>ListArticles\<close> for one response element.\<close>

definition toArticle :: "string \<Rightarrow> ArticleResponse \<Rightarrow> Article" where
  "toArticle baseURL ar =
     \<lparr> ID = arID ar,
       Title = arSummary ar,
       Content = arContent ar,
       ParentID = (case arParent ar of
                     None \<Rightarrow> None
                   | Some p \<Rightarrow> if p \<noteq> [] then Some p else None),
       Order = 0,
       URL = baseURL @ ''/articles/'' @ arID ar \<rparr>"

fun convertArticles :: "Config \<Rightarrow> string \<Rightarrow> ArticleResponse list \<Rightarrow> Article list" where
  "convertArticles c baseURL [] = []"
| "convertArticles c baseURL (ar # ars) =
     (if KBKey c \<noteq> [] \<and> arProjectID ar \<noteq> KBKey c \<and> arProjectName ar \<noteq> KBKey c
      then convertArticles c baseURL ars
      else toArticle baseURL ar # convertArticles c baseURL ars)"

definition ListArticles :: "Config \<Rightarrow> http_reply \<Rightarrow> api_error + Article list" where
  "ListArticles c reply =
     (let baseURL = TrimSuffix (cfgURL c) ''/'' in
      case reply of
        TransportFailure e \<Rightarrow> Inl (RequestFailed e)
      | Reply status body decoded \<Rightarrow>
          if status \<noteq> StatusOK then Inl (ApiError status body)
          else (case decoded of
                  Inl e \<Rightarrow> Inl (DecodeFailed e)
                | Inr articleResponses \<Rightarrow> Inr (convertArticles c baseURL articleResponses)))"

subsection \<open>Package \<open>markdown\<close>\<close>

record Frontmatter =
  fmID :: string
  fmTitle :: string
  fmURL :: string

record MarkdownFile =
  mdFrontmatter :: Frontmatter
  mdContent :: string

datatype md_error =
    NoFrontmatter
  | NoClosingDelimiter
  | BadFrontmatter string

text \<open>The literal \<open>"---\n"\<close>.\<close>

definition delimiter :: string where
  "delimiter = [CHR ''-'', CHR ''-'', CHR ''-'', CHR 0x0A]"

text \<open>
  \<open>yaml.Unmarshal\<close> and \<open>yaml.Marshal\<close> belong to the YAML library: they are the
  parameters \<open>unmarshal\<close> and \<open>marshal\<close>, with \<open>Inl\<close> for the error they may return.
  A slice \<open>content[a:b]\<close> is \<open>take (b - a) (drop a content)\<close>; both slices of
  \<open>ParseMarkdown\<close> are within the string, by what \<open>Index\<close> returned.
\<close>

definition ParseMarkdown ::
  "(string \<Rightarrow> string + Frontmatter) \<Rightarrow> string \<Rightarrow> md_error + MarkdownFile" where
  "ParseMarkdown unmarshal content =
     (case Index content delimiter of
        None \<Rightarrow> Inl NoFrontmatter
      | Some frontmatterStart \<Rightarrow>
          (case Index (drop (frontmatterStart + 4) content) delimiter of
             None \<Rightarrow> Inl NoClosingDelimiter
           | Some frontmatterEnd \<Rightarrow>
               (let frontmatterText = take frontmatterEnd (drop (frontmatterStart + 4) content);
                    bodyStart = frontmatterStart + 4 + frontmatterEnd + 4
                in case unmarshal frontmatterText of
                     Inl e \<Rightarrow> Inl (BadFrontmatter e)
                   | Inr frontmatter \<Rightarrow>
                       Inr \<lparr> mdFrontmatter = frontmatter,
                             mdContent = (if bodyStart < length content
                                          then drop bodyStart content else []) \<rparr>)))"

definition WriteMarkdown ::
  "(Frontmatter \<Rightarrow> string + string) \<Rightarrow> Frontmatter \<Rightarrow> string \<Rightarrow> string + string" where
  "WriteMarkdown marshal fm content =
     (case marshal fm of
        Inl e \<Rightarrow> Inl e
      | Inr yamlData \<Rightarrow> Inr (delimiter @ yamlData @ delimiter @ content))"

text \<open>
  What the YAML library does with a \<open>Frontmatter\<close> whose values are plain scalars (text
  that YAML writes without quotes): one line \<open>key: value\<close> for each field, \<open>id\<close> and
  \<open>url\<close> left out when empty (\<open>omitempty\<close>); reading takes each such line back and
  ignores any other. It instantiates the two parameters wherever a run is evaluated.
\<close>

definition plainYaml :: "Frontmatter \<Rightarrow> string" where
  "plainYaml fm =
     (if fmID fm = [] then [] else ''id: '' @ fmID fm @ [CHR 0x0A]) @
     ''title: '' @ fmTitle fm @ [CHR 0x0A] @
     (if fmURL fm = [] then [] else ''url: '' @ fmURL fm @ [CHR 0x0A])"

definition plainMarshal :: "Frontmatter \<Rightarrow> string + string" where
  "plainMarshal fm = Inr (plainYaml fm)"

definition plainField :: "Frontmatter \<Rightarrow> string \<Rightarrow> Frontmatter" where
  "plainField fm line =
     (if prefix ''id: '' line then fm\<lparr>fmID := drop 4 line\<rparr>
      else if prefix ''title: '' line then fm\<lparr>fmTitle := drop 7 line\<rparr>
      else if prefix ''url: '' line then fm\<lparr>fmURL := drop 5 line\<rparr>
      else fm)"

definition plainUnmarshal :: "string \<Rightarrow> string + Frontmatter" where
  "plainUnmarshal text =
     Inr (foldl plainField \<lparr>fmID = [], fmTitle = [], fmURL = []\<rparr> (splitOn (CHR 0x0A) text))"

subsection \<open>Package \<open>filesystem\<close>\<close>

text \<open>The string \<open>invalidChars\<close>: \<open>/ \ < > : " | ? *\<close>.\<close>

definition invalidChars :: string where
  "invalidChars = [CHR ''/'', CHR 0x5C, CHR ''<'', CHR ''>'', CHR '':'', CHR 0x22,
                   CHR ''|'', CHR ''?'', CHR ''*'']"

definition SanitizeFilename :: "string \<Rightarrow> string" where
  "SanitizeFilename name = foldl (\<lambda>result char. ReplaceAll result [char] ''_'') name invalidChars"

text \<open>
  The files under the working directory: a path has a content, or reading it fails
  (\<open>None\<close>), which is all the program asks of \<open>ReadMarkdownFile\<close>.
\<close>

type_synonym files = "string \<Rightarrow> string option"

subsection \<open>Package \<open>cmd\<close>: the diff\<close>

datatype ArticleStatus = StatusUnchanged | StatusModified | StatusNewLocal | StatusDeleted

datatype ArticleNode =
  ArticleNode (nID: string) (nTitle: string) (nStatus: ArticleStatus)
    (nChildren: "ArticleNode list") (nPath: string)

text \<open>
  The maps the first loop of \<open>runDiff\<close> fills (lines 82 to 107). \<open>pushAllChanges\<close> runs
  the same loop without \<open>localByPath\<close>.
\<close>

record LocalMaps =
  localByID :: "string \<Rightarrow> MarkdownFile option"
  localPaths :: "string \<Rightarrow> string option"
  localByPath :: "string \<Rightarrow> MarkdownFile option"

definition noLocal :: LocalMaps where
  "noLocal = \<lparr> localByID = Map.empty, localPaths = Map.empty, localByPath = Map.empty \<rparr>"

definition loadLocalFile ::
  "(string \<Rightarrow> string + Frontmatter) \<Rightarrow> files \<Rightarrow> LocalMaps \<Rightarrow> string \<Rightarrow> LocalMaps" where
  "loadLocalFile unmarshal fs maps filePath =
     (case fs filePath of
        None \<Rightarrow> maps
      | Some content \<Rightarrow>
          (case ParseMarkdown unmarshal content of
             Inl e \<Rightarrow> maps
           | Inr md \<Rightarrow>
               if fmID (mdFrontmatter md) \<noteq> []
               then maps\<lparr> localByID := (localByID maps)(fmID (mdFrontmatter md) \<mapsto> md),
                         localPaths := (localPaths maps)(fmID (mdFrontmatter md) \<mapsto> filePath) \<rparr>
               else maps\<lparr> localByPath := (localByPath maps)(filePath \<mapsto> md) \<rparr>))"

definition loadLocal ::
  "(string \<Rightarrow> string + Frontmatter) \<Rightarrow> files \<Rightarrow> string list \<Rightarrow> LocalMaps" where
  "loadLocal unmarshal fs localFiles = foldl (loadLocalFile unmarshal fs) noLocal localFiles"

text \<open>\<open>serverByID\<close> and \<open>articlesByID\<close>: a later article replaces an earlier one of the same identifier.\<close>

definition indexByID :: "Article list \<Rightarrow> (string \<Rightarrow> Article option)" where
  "indexByID articles = foldl (\<lambda>m a. m(ID a \<mapsto> a)) Map.empty articles"

record StatusMaps =
  articleStatus :: "string \<Rightarrow> ArticleStatus option"
  articleTitles :: "string \<Rightarrow> string option"
  articlePaths :: "string \<Rightarrow> string option"

definition noStatus :: StatusMaps where
  "noStatus = \<lparr> articleStatus = Map.empty, articleTitles = Map.empty, articlePaths = Map.empty \<rparr>"

text \<open>
  The loop over \<open>serverByID\<close> (lines 119 to 138). Go leaves the order in which \<open>range\<close>
  visits a map open: each such loop is a fold over a list of keys, the order of that
  run, which is a parameter (\<open>ks\<close> here) and in the theorems any enumeration of the keys
  of the map without repetition.
\<close>

definition checkArticle ::
  "(string \<Rightarrow> Article option) \<Rightarrow> LocalMaps \<Rightarrow> StatusMaps \<Rightarrow> string \<Rightarrow> StatusMaps" where
  "checkArticle serverByID loc sm key =
     (case serverByID key of
        None \<Rightarrow> sm
      | Some article \<Rightarrow>
          (let sm1 = sm\<lparr> articleTitles := (articleTitles sm)(key \<mapsto> Title article) \<rparr> in
           case localByID loc key of
             Some localMD \<Rightarrow>
               (let localContent = TrimSpace (mdContent localMD);
                    serverContent = TrimSpace (Content article);
                    sm2 = (if localContent \<noteq> serverContent
                           then sm1\<lparr> articleStatus := (articleStatus sm1)(key \<mapsto> StatusModified) \<rparr>
                           else sm1\<lparr> articleStatus := (articleStatus sm1)(key \<mapsto> StatusUnchanged) \<rparr>)
                in case localPaths loc key of
                     Some path \<Rightarrow> sm2\<lparr> articlePaths := (articlePaths sm2)(key \<mapsto> path) \<rparr>
                   | None \<Rightarrow> sm2)
           | None \<Rightarrow> sm1\<lparr> articleStatus := (articleStatus sm1)(key \<mapsto> StatusDeleted) \<rparr>))"

definition checkServerArticles ::
  "string list \<Rightarrow> (string \<Rightarrow> Article option) \<Rightarrow> LocalMaps \<Rightarrow> StatusMaps" where
  "checkServerArticles ks serverByID loc = foldl (checkArticle serverByID loc) noStatus ks"

text \<open>An article is a root when its parent pointer is nil or points to the empty string.\<close>

definition isRoot :: "Article \<Rightarrow> bool" where
  "isRoot a = (ParentID a = None \<or> ParentID a = Some [])"

text \<open>
  The children of an article (lines 225 to 237 of the diff, 93 to 105 of the download,
  the same code): the values of \<open>articlesByID\<close> in the order \<open>ks\<close> in which this
  \<open>range\<close> visits the keys, those kept that point to the article, then sorted with
  \<open>sort.Slice\<close> and the comparison \<open>children[i].Order < children[j].Order\<close>.
\<close>

definition findChildren ::
  "string list \<Rightarrow> (Article list \<Rightarrow> Article list) \<Rightarrow> (string \<Rightarrow> Article option) \<Rightarrow> Article
     \<Rightarrow> Article list" where
  "findChildren ks shuffle articlesByID article =
     sortSlice shuffle (\<lambda>a b. Order a < Order b)
       (filter (\<lambda>child. ParentID child = Some (ID article)) (List.map_filter articlesByID ks))"

text \<open>
  \<open>buildTreeNode\<close>. Nothing bounds the recursion in the source; the first argument is
  the depth the stack has room for, and \<open>None\<close> says that it was used up. \<open>rng i\<close> is
  the order of the \<open>range\<close> over \<open>articlesByID\<close> in the call for the article \<open>i\<close>. A key
  missing from \<open>articleStatus\<close> reads as the zero value \<open>StatusUnchanged\<close>, one missing from
  \<open>articlePaths\<close> leaves \<open>Path\<close> empty. (\<open>articleTitles\<close> is passed and not read.)
\<close>

fun buildTreeNode ::
  "nat \<Rightarrow> (string \<Rightarrow> string list) \<Rightarrow> (Article list \<Rightarrow> Article list) \<Rightarrow>
     (string \<Rightarrow> Article option) \<Rightarrow> StatusMaps \<Rightarrow> Article \<Rightarrow> ArticleNode option" where
  "buildTreeNode 0 rng shuffle articlesByID sm article = None"
| "buildTreeNode (Suc depth) rng shuffle articlesByID sm article =
     (case those (map (buildTreeNode depth rng shuffle articlesByID sm)
                    (findChildren (rng (ID article)) shuffle articlesByID article)) of
        None \<Rightarrow> None
      | Some childNodes \<Rightarrow>
          Some (ArticleNode (ID article) (Title article)
                  (case articleStatus sm (ID article) of None \<Rightarrow> StatusUnchanged | Some st \<Rightarrow> st)
                  childNodes
                  (case articlePaths sm (ID article) of None \<Rightarrow> [] | Some path \<Rightarrow> path)))"

text \<open>Lines 148 to 166: the roots in list order, sorted by \<open>Order\<close>, one tree for each.\<close>

definition buildRootNodes ::
  "nat \<Rightarrow> (string \<Rightarrow> string list) \<Rightarrow> (Article list \<Rightarrow> Article list) \<Rightarrow>
     Article list \<Rightarrow> StatusMaps \<Rightarrow> ArticleNode list option" where
  "buildRootNodes depth rng shuffle serverArticles sm =
     those (map (buildTreeNode depth rng shuffle (indexByID serverArticles) sm)
              (sortSlice shuffle (\<lambda>a b. Order a < Order b) (filter isRoot serverArticles)))"

fun findNodeByPath :: "ArticleNode list \<Rightarrow> string \<Rightarrow> ArticleNode option" where
  "findNodeByPath [] targetPath = None"
| "findNodeByPath (ArticleNode i t st children path # nodes) targetPath =
     (if path \<noteq> [] \<and> Dir path = targetPath then Some (ArticleNode i t st children path)
      else (case findNodeByPath children targetPath of
              Some found \<Rightarrow> Some found
            | None \<Rightarrow> findNodeByPath nodes targetPath))"

text \<open>
  \<open>parentNode.Children = append(parentNode.Children, node)\<close> writes through the pointer
  that \<open>findNodeByPath\<close> returned. Every node of the forest was allocated once and hangs
  in one place, so the write is the forest with the node appended at the place where the
  search stops: \<open>appendChild\<close> walks as \<open>findNodeByPath\<close> does.
\<close>

fun appendChild :: "ArticleNode list \<Rightarrow> string \<Rightarrow> ArticleNode \<Rightarrow> ArticleNode list" where
  "appendChild [] targetPath node = []"
| "appendChild (ArticleNode i t st children path # nodes) targetPath node =
     (if path \<noteq> [] \<and> Dir path = targetPath
      then ArticleNode i t st (children @ [node]) path # nodes
      else (case findNodeByPath children targetPath of
              Some found \<Rightarrow> ArticleNode i t st (appendChild children targetPath node) path # nodes
            | None \<Rightarrow> ArticleNode i t st children path # appendChild nodes targetPath node))"

text \<open>The body of the loop over \<open>localByPath\<close> (lines 170 to 194).\<close>

definition addNewLocal :: "ArticleNode list \<Rightarrow> string \<Rightarrow> MarkdownFile \<Rightarrow> ArticleNode list" where
  "addNewLocal rootNodes path md =
     (let dir = Dir path;
          node = ArticleNode [] (fmTitle (mdFrontmatter md)) StatusNewLocal [] path
      in if dir = ''.'' then rootNodes @ [node]
         else (case findNodeByPath rootNodes dir of
                 Some parentNode \<Rightarrow> appendChild rootNodes dir node
               | None \<Rightarrow> rootNodes @ [node]))"

definition addNewLocals ::
  "string list \<Rightarrow> (string \<Rightarrow> MarkdownFile option) \<Rightarrow> ArticleNode list \<Rightarrow> ArticleNode list" where
  "addNewLocals ks byPath rootNodes =
     foldl (\<lambda>nodes path. case byPath path of None \<Rightarrow> nodes | Some md \<Rightarrow> addNewLocal nodes path md)
       rootNodes ks"

datatype diff_error = FindFilesFailed string | ListArticlesFailed api_error

text \<open>
  \<open>runDiff\<close> up to the forest it hands to \<open>displayTree\<close>. \<open>found\<close> is what
  \<open>FindMarkdownFiles\<close> returned, \<open>cfg\<close> the configuration the client is made of and
  \<open>reply\<close> what the service answers to \<open>ListArticles\<close>; \<open>ksServer\<close> and \<open>ksLocal\<close> are the
  orders of the loops over \<open>serverByID\<close> and \<open>localByPath\<close>, \<open>shuffleNodes\<close> belongs to
  the last \<open>sort.Slice\<close>, by title. The outer \<open>None\<close> is the stack used up in
  \<open>buildTreeNode\<close>.
\<close>

definition runDiff ::
  "nat \<Rightarrow> (string \<Rightarrow> string + Frontmatter) \<Rightarrow> files \<Rightarrow> string + string list \<Rightarrow>
     Config \<Rightarrow> http_reply \<Rightarrow> string list \<Rightarrow> (string \<Rightarrow> string list) \<Rightarrow> string list \<Rightarrow>
     (Article list \<Rightarrow> Article list) \<Rightarrow> (ArticleNode list \<Rightarrow> ArticleNode list) \<Rightarrow>
     (diff_error + ArticleNode list) option" where
  "runDiff depth unmarshal fs found cfg reply ksServer rng ksLocal shuffle shuffleNodes =
     (case found of
        Inl e \<Rightarrow> Some (Inl (FindFilesFailed e))
      | Inr localFiles \<Rightarrow>
          (case ListArticles cfg reply of
             Inl e \<Rightarrow> Some (Inl (ListArticlesFailed e))
           | Inr serverArticles \<Rightarrow>
               (let loc = loadLocal unmarshal fs localFiles;
                    sm = checkServerArticles ksServer (indexByID serverArticles) loc
                in case buildRootNodes depth rng shuffle serverArticles sm of
                     None \<Rightarrow> None
                   | Some rootNodes \<Rightarrow>
                       Some (Inr (sortSlice shuffleNodes (\<lambda>a b. lessString (nTitle a) (nTitle b))
                                    (addNewLocals ksLocal (localByPath loc) rootNodes))))))"

subsection \<open>Package \<open>cmd\<close>: the download\<close>

datatype download_error =
    DownloadListFailed api_error
  | MarshalFailed string
  | WriteFileFailed string string

text \<open>
  A loop whose body may return an error: the writes of the bodies that ran, in order,
  and the first error, if any, which ends the loop.
\<close>

fun forEach ::
  "('a \<Rightarrow> ('w list \<times> 'e option) option) \<Rightarrow> 'a list \<Rightarrow> ('w list \<times> 'e option) option" where
  "forEach body [] = Some ([], None)"
| "forEach body (x # xs) =
     (case body x of
        None \<Rightarrow> None
      | Some (ws, Some e) \<Rightarrow> Some (ws, Some e)
      | Some (ws, None) \<Rightarrow>
          (case forEach body xs of
             None \<Rightarrow> None
           | Some (ws', r) \<Rightarrow> Some (ws @ ws', r)))"

text \<open>
  \<open>downloadArticleRecursive\<close>: the files written, as pairs of path and content in the
  order of writing, and the error returned, if any. \<open>writeError path\<close> is the error of
  \<open>WriteMarkdownFile\<close> at that path (\<open>None\<close>: the file is written). The first argument and
  the outer \<open>None\<close> are the stack, as in \<open>buildTreeNode\<close>. The progress lines are left out.
\<close>

fun downloadArticleRecursive ::
  "nat \<Rightarrow> (string \<Rightarrow> string list) \<Rightarrow> (Article list \<Rightarrow> Article list) \<Rightarrow>
     (Frontmatter \<Rightarrow> string + string) \<Rightarrow> (string \<Rightarrow> string option) \<Rightarrow>
     (string \<Rightarrow> Article option) \<Rightarrow> string \<Rightarrow> Article \<Rightarrow>
     ((string \<times> string) list \<times> download_error option) option" where
  "downloadArticleRecursive 0 rng shuffle marshal writeError articlesByID basePath article = None"
| "downloadArticleRecursive (Suc depth) rng shuffle marshal writeError articlesByID basePath article =
     (let sanitizedTitle = SanitizeFilename (Title article);
          filePath = Join [basePath, sanitizedTitle @ ''.md''];
          frontmatter = \<lparr> fmID = ID article, fmTitle = Title article, fmURL = URL article \<rparr>
      in case WriteMarkdown marshal frontmatter (Content article) of
           Inl e \<Rightarrow> Some ([], Some (MarshalFailed e))
         | Inr content \<Rightarrow>
             (case writeError filePath of
                Some e \<Rightarrow> Some ([], Some (WriteFileFailed filePath e))
              | None \<Rightarrow>
                  (let children = findChildren (rng (ID article)) shuffle articlesByID article;
                       childDir = Join [basePath, sanitizedTitle]
                   in case forEach (downloadArticleRecursive depth rng shuffle marshal writeError
                                      articlesByID childDir) children of
                        None \<Rightarrow> None
                      | Some (ws, r) \<Rightarrow> Some ((filePath, content) # ws, r))))"

text \<open>
  \<open>runDownload\<close>. \<open>cfg\<close> is the configuration the client is made of and \<open>reply\<close> what
  the service answers to the request of \<open>ListArticles\<close>.
\<close>

definition runDownload ::
  "nat \<Rightarrow> (string \<Rightarrow> string list) \<Rightarrow> (Article list \<Rightarrow> Article list) \<Rightarrow>
     (Frontmatter \<Rightarrow> string + string) \<Rightarrow> (string \<Rightarrow> string option) \<Rightarrow>
     Config \<Rightarrow> http_reply \<Rightarrow> ((string \<times> string) list \<times> download_error option) option" where
  "runDownload depth rng shuffle marshal writeError cfg reply =
     (case ListArticles cfg reply of
        Inl e \<Rightarrow> Some ([], Some (DownloadListFailed e))
      | Inr articles \<Rightarrow>
          if length articles = 0 then Some ([], None)
          else forEach (downloadArticleRecursive depth rng shuffle marshal writeError
                          (indexByID articles) ''.'')
                 (sortSlice shuffle (\<lambda>a b. Order a < Order b) (filter isRoot articles)))"

subsection \<open>Package \<open>cmd\<close>: the push\<close>

text \<open>
  What a push does to the outside is a list of events, in order: a line printed (to
  standard output or, for \<open>FailedToUpdate\<close>, to standard error), a call of a method of the
  API client, a line read from standard input. The client has five methods; each is a
  constructor of \<open>remote_call\<close>.
\<close>

datatype remote_call =
    ListKnowledgeBasesCall
  | ListArticlesCall
  | GetArticleCall string
  | CreateArticleCall string string "string option"
  | UpdateArticleCall string string string

datatype message =
    Pushing string
  | Updated string
  | NoChangesToPush
  | PagesToBePushed
  | PageLine nat string string
  | SkippedNewArticles "string list"
  | ProceedWithPush
  | PushCancelled
  | PushingChanges
  | FailedToUpdate string string
  | PageDeletedLocally string string
  | PushComplete

datatype event = Print message | Remote remote_call | ReadLine

datatype push_error =
    PushFindFilesFailed string
  | PushListArticlesFailed api_error
  | ReadFileFailed string
  | ParseFailed md_error
  | CannotPush string
  | UpdateFailed string
  | ReadResponseFailed
  | NilDereference

text \<open>
  \<open>pushSinglePage\<close>. \<open>update i t c\<close> is the error of \<open>client.UpdateArticle(i, t, c)\<close>, \<open>None\<close>
  when the call succeeds. \<open>CannotPush\<close> is the error "cannot push article without ID".
\<close>

definition pushSinglePage ::
  "(string \<Rightarrow> string + Frontmatter) \<Rightarrow> files \<Rightarrow> (string \<Rightarrow> string \<Rightarrow> string \<Rightarrow> string option) \<Rightarrow>
     string \<Rightarrow> event list \<times> push_error option" where
  "pushSinglePage unmarshal fs update filePath =
     (case fs filePath of
        None \<Rightarrow> ([Print (Pushing filePath)], Some (ReadFileFailed filePath))
      | Some content \<Rightarrow>
          (case ParseMarkdown unmarshal content of
             Inl e \<Rightarrow> ([Print (Pushing filePath)], Some (ParseFailed e))
           | Inr md \<Rightarrow>
               if fmID (mdFrontmatter md) = []
               then ([Print (Pushing filePath)], Some (CannotPush (fmTitle (mdFrontmatter md))))
               else (case update (fmID (mdFrontmatter md)) (fmTitle (mdFrontmatter md)) (mdContent md) of
                       Some e \<Rightarrow>
                         ([Print (Pushing filePath),
                           Remote (UpdateArticleCall (fmID (mdFrontmatter md))
                                     (fmTitle (mdFrontmatter md)) (mdContent md))],
                          Some (UpdateFailed e))
                     | None \<Rightarrow>
                         ([Print (Pushing filePath),
                           Remote (UpdateArticleCall (fmID (mdFrontmatter md))
                                     (fmTitle (mdFrontmatter md)) (mdContent md)),
                           Print (Updated (fmTitle (mdFrontmatter md)))],
                          None))))"

record Page =
  pgID :: string
  pgTitle :: string
  pgFilePath :: string

text \<open>Lines 110 to 124, the loop over \<open>localByID\<close> in the order \<open>ks\<close>.\<close>

definition collectPage ::
  "LocalMaps \<Rightarrow> (string \<Rightarrow> Article option) \<Rightarrow> Page list \<Rightarrow> string \<Rightarrow> Page list" where
  "collectPage loc serverByID pagesToPush key =
     (case localByID loc key of
        None \<Rightarrow> pagesToPush
      | Some localMD \<Rightarrow>
          (case serverByID key of
             None \<Rightarrow> pagesToPush
           | Some serverArticle \<Rightarrow>
               if TrimSpace (mdContent localMD) \<noteq> TrimSpace (Content serverArticle)
               then pagesToPush @
                    [\<lparr> pgID = key, pgTitle = fmTitle (mdFrontmatter localMD),
                       pgFilePath = (case localPaths loc key of None \<Rightarrow> [] | Some path \<Rightarrow> path) \<rparr>]
               else pagesToPush))"

definition collectPages ::
  "string list \<Rightarrow> LocalMaps \<Rightarrow> (string \<Rightarrow> Article option) \<Rightarrow> Page list" where
  "collectPages ks loc serverByID = foldl (collectPage loc serverByID) [] ks"

text \<open>Lines 126 to 145: the files are read and parsed a second time.\<close>

definition collectNewPage ::
  "(string \<Rightarrow> string + Frontmatter) \<Rightarrow> files \<Rightarrow> (string \<Rightarrow> Article option) \<Rightarrow> string list \<Rightarrow>
     string \<Rightarrow> string list" where
  "collectNewPage unmarshal fs serverByID newPages filePath =
     (case fs filePath of
        None \<Rightarrow> newPages
      | Some content \<Rightarrow>
          (case ParseMarkdown unmarshal content of
             Inl e \<Rightarrow> newPages
           | Inr md \<Rightarrow>
               (let existsOnServer = (serverByID (fmID (mdFrontmatter md)) \<noteq> None);
                    isNew = (fmID (mdFrontmatter md) = [] \<or> \<not> existsOnServer)
                in if isNew then newPages @ [filePath] else newPages)))"

definition collectNewPages ::
  "(string \<Rightarrow> string + Frontmatter) \<Rightarrow> files \<Rightarrow> (string \<Rightarrow> Article option) \<Rightarrow> string list \<Rightarrow>
     string list" where
  "collectNewPages unmarshal fs serverByID localFiles =
     foldl (collectNewPage unmarshal fs serverByID) [] localFiles"

text \<open>
  \<open>reader.ReadString(delim)\<close> on the text that standard input holds: the text up to
  and with the first delimiter, or the error (\<open>None\<close>) of an input that ends before one.
\<close>

definition ReadString :: "string \<Rightarrow> char \<Rightarrow> string option" where
  "ReadString input delim =
     (if delim \<in> set input then Some (takeWhile (\<lambda>c. c \<noteq> delim) input @ [delim]) else None)"

text \<open>
  Lines 184 to 192. \<open>localByID[page.id]\<close> of a missing key is a nil pointer, and reading
  its fields ends the process: \<open>NilDereference\<close>.
\<close>

fun pushPages ::
  "(string \<Rightarrow> string \<Rightarrow> string \<Rightarrow> string option) \<Rightarrow> LocalMaps \<Rightarrow> Page list \<Rightarrow>
     event list \<times> push_error option" where
  "pushPages update loc [] = ([], None)"
| "pushPages update loc (page # pages) =
     (case localByID loc (pgID page) of
        None \<Rightarrow> ([], Some NilDereference)
      | Some localMD \<Rightarrow>
          (let call = Remote (UpdateArticleCall (pgID page) (fmTitle (mdFrontmatter localMD))
                                (mdContent localMD));
               line = (case update (pgID page) (fmTitle (mdFrontmatter localMD)) (mdContent localMD) of
                         Some e \<Rightarrow> Print (FailedToUpdate (pgTitle page) e)
                       | None \<Rightarrow> Print (Updated (pgTitle page)));
               (evs, r) = pushPages update loc pages
           in (call # line # evs, r)))"

text \<open>Lines 195 to 200, the loop over \<open>serverByID\<close> in the order \<open>ks\<close>.\<close>

definition deletedWarning ::
  "LocalMaps \<Rightarrow> (string \<Rightarrow> Article option) \<Rightarrow> string \<Rightarrow> event list" where
  "deletedWarning loc serverByID key =
     (case serverByID key of
        None \<Rightarrow> []
      | Some article \<Rightarrow>
          if localByID loc key = None
          then [Print (PageDeletedLocally (Title article) (URL article))] else [])"

definition planLines :: "Page list \<Rightarrow> event list" where
  "planLines pagesToPush =
     map (\<lambda>(i, page). Print (PageLine (i + 1) (pgTitle page) (pgFilePath page)))
       (enumerate 0 pagesToPush)"

text \<open>
  \<open>pushAllChanges\<close>. \<open>found\<close> is what \<open>FindMarkdownFiles\<close> returned, \<open>cfg\<close> and \<open>reply\<close>
  are the configuration and the answer of the service to \<open>ListArticles\<close>, \<open>ksLocal\<close> and
  \<open>ksServer\<close> the orders of the loops over \<open>localByID\<close> and \<open>serverByID\<close>, \<open>stdin\<close> the
  text on standard input.
\<close>

definition pushAllChanges ::
  "(string \<Rightarrow> string + Frontmatter) \<Rightarrow> files \<Rightarrow> string + string list \<Rightarrow> Config \<Rightarrow> http_reply \<Rightarrow>
     string list \<Rightarrow> string list \<Rightarrow> (string \<Rightarrow> string) \<Rightarrow> string \<Rightarrow>
     (string \<Rightarrow> string \<Rightarrow> string \<Rightarrow> string option) \<Rightarrow> event list \<times> push_error option" where
  "pushAllChanges unmarshal fs found cfg reply ksLocal ksServer uni stdin update =
     (case found of
        Inl e \<Rightarrow> ([], Some (PushFindFilesFailed e))
      | Inr localFiles \<Rightarrow>
          (case ListArticles cfg reply of
             Inl e \<Rightarrow> ([Remote ListArticlesCall], Some (PushListArticlesFailed e))
           | Inr serverArticles \<Rightarrow>
               (let loc = loadLocal unmarshal fs localFiles;
                    serverByID = indexByID serverArticles;
                    pagesToPush = collectPages ksLocal loc serverByID;
                    newPages = collectNewPages unmarshal fs serverByID localFiles
                in if length pagesToPush = 0 \<and> length newPages = 0
                   then ([Remote ListArticlesCall, Print NoChangesToPush], None)
                   else
                     (let plan = [Remote ListArticlesCall, Print PagesToBePushed] @
                                 planLines pagesToPush @
                                 (if length newPages > 0 then [Print (SkippedNewArticles newPages)]
                                  else []) @
                                 [Print ProceedWithPush, ReadLine]
                      in case ReadString stdin (CHR 0x0A) of
                           None \<Rightarrow> (plan, Some ReadResponseFailed)
                         | Some line \<Rightarrow>
                             (let response = TrimSpace (ToLower uni line)
                              in if response \<noteq> ''y'' \<and> response \<noteq> ''yes''
                                 then (plan @ [Print PushCancelled], None)
                                 else
                                   (case pushPages update loc pagesToPush of
                                      (evs, Some e) \<Rightarrow> (plan @ [Print PushingChanges] @ evs, Some e)
                                    | (evs, None) \<Rightarrow>
                                        (plan @ [Print PushingChanges] @ evs @
                                         concat (map (deletedWarning loc serverByID) ksServer) @
                                         [Print PushComplete], None)))))))"

text \<open>The calls of the client among the events.\<close>

fun remoteCallsOf :: "event list \<Rightarrow> remote_call list" where
  "remoteCallsOf [] = []"
| "remoteCallsOf (Remote call # evs) = call # remoteCallsOf evs"
| "remoteCallsOf (ev # evs) = remoteCallsOf evs"

subsection \<open>Notions for the statements\<close>

text \<open>
  The local snapshot: a file that is read and parsed without error is decoded; the files
  are taken in the order of \<open>localFiles\<close>. \<open>carrying \<dots> i\<close> are the decoded files whose
  frontmatter has the identifier \<open>i\<close>.
\<close>

definition decode :: "(string \<Rightarrow> string + Frontmatter) \<Rightarrow> files \<Rightarrow> string \<Rightarrow> MarkdownFile option" where
  "decode unmarshal fs filePath =
     (case fs filePath of
        None \<Rightarrow> None
      | Some content \<Rightarrow> (case ParseMarkdown unmarshal content of Inl e \<Rightarrow> None | Inr md \<Rightarrow> Some md))"

definition carrying ::
  "(string \<Rightarrow> string + Frontmatter) \<Rightarrow> files \<Rightarrow> string list \<Rightarrow> string \<Rightarrow> MarkdownFile list" where
  "carrying unmarshal fs localFiles i =
     filter (\<lambda>md. fmID (mdFrontmatter md) = i) (List.map_filter (decode unmarshal fs) localFiles)"

text \<open>A decoded file without identifier, or with one that the server does not have.\<close>

definition isNewFile ::
  "(string \<Rightarrow> string + Frontmatter) \<Rightarrow> files \<Rightarrow> Article list \<Rightarrow> string \<Rightarrow> bool" where
  "isNewFile unmarshal fs serverArticles filePath =
     (case decode unmarshal fs filePath of
        None \<Rightarrow> False
      | Some md \<Rightarrow> fmID (mdFrontmatter md) = [] \<or>
                  indexByID serverArticles (fmID (mdFrontmatter md)) = None)"

text \<open>
  The answer on standard input is a yes: there is a line, and lowered and trimmed it is
  \<open>y\<close> or \<open>yes\<close> (lines 171 to 177 of the push).
\<close>

definition accepted :: "(string \<Rightarrow> string) \<Rightarrow> string \<Rightarrow> bool" where
  "accepted uni stdin =
     (case ReadString stdin (CHR 0x0A) of
        None \<Rightarrow> False
      | Some line \<Rightarrow> TrimSpace (ToLower uni line) = ''y'' \<or> TrimSpace (ToLower uni line) = ''yes'')"

text \<open>
  The files, by path, that decode with the identifier \<open>i\<close> in the frontmatter. An
  identifier is \<open>modified\<close> when it is not empty, a decoded file carries it, the server
  has it, and the trimmed content of the last such file differs from the trimmed content
  on the server.
\<close>

definition carriers ::
  "(string \<Rightarrow> string + Frontmatter) \<Rightarrow> files \<Rightarrow> string list \<Rightarrow> string \<Rightarrow> string list" where
  "carriers unmarshal fs localFiles i =
     filter (\<lambda>p. case decode unmarshal fs p of None \<Rightarrow> False | Some md \<Rightarrow> fmID (mdFrontmatter md) = i)
       localFiles"

definition modified ::
  "(string \<Rightarrow> string + Frontmatter) \<Rightarrow> files \<Rightarrow> string list \<Rightarrow> Article list \<Rightarrow> string \<Rightarrow> bool" where
  "modified unmarshal fs localFiles serverArticles i =
     (i \<noteq> [] \<and> carrying unmarshal fs localFiles i \<noteq> [] \<and>
      (case indexByID serverArticles i of
         None \<Rightarrow> False
       | Some a \<Rightarrow> TrimSpace (mdContent (last (carrying unmarshal fs localFiles i))) \<noteq>
                   TrimSpace (Content a)))"

text \<open>
  What the statements about the bulk push expect of it, in terms of the notions above.
  The page of the plan for an identifier has the title of the last file that carries it
  and the path of that file. The plan is the listing of the articles, the heading, one
  numbered line for each identifier with that title and path, the warning with the new
  files when there are any, the prompt, and the read of the answer.
\<close>

definition pageOf ::
  "(string \<Rightarrow> string + Frontmatter) \<Rightarrow> files \<Rightarrow> string list \<Rightarrow> string \<Rightarrow> Page" where
  "pageOf unmarshal fs localFiles i =
     \<lparr>pgID = i, pgTitle = fmTitle (mdFrontmatter (last (carrying unmarshal fs localFiles i))),
      pgFilePath = last (carriers unmarshal fs localFiles i)\<rparr>"

definition planOf ::
  "(string \<Rightarrow> string + Frontmatter) \<Rightarrow> files \<Rightarrow> string list \<Rightarrow> string list \<Rightarrow> string list \<Rightarrow> event list" where
  "planOf unmarshal fs localFiles ids new =
     [Remote ListArticlesCall, Print PagesToBePushed] @
     map (\<lambda>(n, i). Print (PageLine (n + 1)
                           (fmTitle (mdFrontmatter (last (carrying unmarshal fs localFiles i))))
                           (last (carriers unmarshal fs localFiles i))))
       (enumerate 0 ids) @
     (if new = [] then [] else [Print (SkippedNewArticles new)]) @
     [Print ProceedWithPush, ReadLine]"

text \<open>
  The update of an identifier, with title and content of the last file that carries it,
  followed by the line that says how it went; and the warnings about the visited
  identifiers of the server that no decoded file carries, with title and URL of the
  article.
\<close>

definition updateOf ::
  "(string \<Rightarrow> string + Frontmatter) \<Rightarrow> files \<Rightarrow> string list \<Rightarrow> string \<Rightarrow> remote_call" where
  "updateOf unmarshal fs localFiles i =
     UpdateArticleCall i (fmTitle (mdFrontmatter (last (carrying unmarshal fs localFiles i))))
       (mdContent (last (carrying unmarshal fs localFiles i)))"

definition updateEvents ::
  "(string \<Rightarrow> string \<Rightarrow> string \<Rightarrow> string option) \<Rightarrow> (string \<Rightarrow> string + Frontmatter) \<Rightarrow> files \<Rightarrow>
     string list \<Rightarrow> string \<Rightarrow> event list" where
  "updateEvents update unmarshal fs localFiles i =
     (let title = fmTitle (mdFrontmatter (last (carrying unmarshal fs localFiles i)));
          content = mdContent (last (carrying unmarshal fs localFiles i))
      in [Remote (UpdateArticleCall i title content),
          (case update i title content of
             Some e \<Rightarrow> Print (FailedToUpdate title e)
           | None \<Rightarrow> Print (Updated title))])"

definition deletionWarnings ::
  "(string \<Rightarrow> string + Frontmatter) \<Rightarrow> files \<Rightarrow> string list \<Rightarrow> Article list \<Rightarrow> string list \<Rightarrow> event list" where
  "deletionWarnings unmarshal fs localFiles serverArticles ks =
     concat (map (\<lambda>k. case indexByID serverArticles k of
                         None \<Rightarrow> []
                       | Some a \<Rightarrow>
                           if k = [] \<or> carrying unmarshal fs localFiles k = []
                           then [Print (PageDeletedLocally (Title a) (URL a))] else []) ks)"

text \<open>The nodes of a tree, the node itself first, and of a forest; their identifiers.\<close>

fun subnodes :: "ArticleNode \<Rightarrow> ArticleNode list" where
  "subnodes (ArticleNode i t st children path) =
     ArticleNode i t st children path # concat (map subnodes children)"

definition forestNodes :: "ArticleNode list \<Rightarrow> ArticleNode list" where
  "forestNodes forest = concat (map subnodes forest)"

definition nodeIDs :: "ArticleNode \<Rightarrow> string list" where
  "nodeIDs t = map nID (subnodes t)"

text \<open>The \<open>Order\<close> of the article that a node stands for (a node has no such field).\<close>

definition orderOf :: "(string \<Rightarrow> Article option) \<Rightarrow> ArticleNode \<Rightarrow> int" where
  "orderOf m node = (case m (nID node) of None \<Rightarrow> 0 | Some a \<Rightarrow> Order a)"

text \<open>
  What the moves of \<open>sort.Slice\<close> and a \<open>range\<close> over a map are known to do: the slice
  keeps its elements; every key is visited once.
\<close>

definition rearranges :: "('a list \<Rightarrow> 'a list) \<Rightarrow> bool" where
  "rearranges shuffle = (\<forall>xs. mset (shuffle xs) = mset xs)"

definition visitsKeys :: "string list \<Rightarrow> (string \<Rightarrow> 'v option) \<Rightarrow> bool" where
  "visitsKeys ks m = (distinct ks \<and> set ks = dom m)"

text \<open>The identifiers of the articles are distinct and not empty.\<close>

definition uniqueIDs :: "Article list \<Rightarrow> bool" where
  "uniqueIDs articles = (distinct (map ID articles) \<and> (\<forall>a \<in> set articles. ID a \<noteq> []))"

text \<open>
  \<open>pathTo articles a ps\<close>: following the parent references from \<open>a\<close> ends at a root, and
  \<open>ps\<close> are the identifiers on the way, the one of \<open>a\<close> first and the one of the root last.
\<close>

inductive pathTo :: "Article list \<Rightarrow> Article \<Rightarrow> string list \<Rightarrow> bool" for articles where
  root: "a \<in> set articles \<Longrightarrow> isRoot a \<Longrightarrow> pathTo articles a [ID a]"
| step: "pathTo articles p ps \<Longrightarrow> c \<in> set articles \<Longrightarrow> ParentID c = Some (ID p) \<Longrightarrow>
         pathTo articles c (ID c # ps)"

text \<open>
  What identifies a node in the statements about the forest of the diff: identifier,
  title, status and path. \<open>pairs\<close> are the parent and child pairs of a forest.
\<close>

type_synonym label = "string \<times> string \<times> ArticleStatus \<times> string"

definition label :: "ArticleNode \<Rightarrow> label" where
  "label n = (nID n, nTitle n, nStatus n, nPath n)"

definition pairs :: "ArticleNode list \<Rightarrow> (label \<times> label) list" where
  "pairs forest = concat (map (\<lambda>n. map (\<lambda>c. (label n, label c)) (nChildren n)) (forestNodes forest))"

text \<open>The node that \<open>runDiff\<close> makes for a local file without identifier (lines 173 to 179).\<close>

definition newLocalNode :: "string \<Rightarrow> MarkdownFile \<Rightarrow> ArticleNode" where
  "newLocalNode path md = ArticleNode [] (fmTitle (mdFrontmatter md)) StatusNewLocal [] path"

text \<open>
  The test of \<open>findNodeByPath\<close>: the node has a path, and the directory of that path is
  the one looked for.
\<close>

definition inDirectory :: "string \<Rightarrow> ArticleNode \<Rightarrow> bool" where
  "inDirectory dir n = (nPath n \<noteq> [] \<and> Dir (nPath n) = dir)"

text \<open>A file that decodes and has no identifier.\<close>

definition identifierless :: "(string \<Rightarrow> string + Frontmatter) \<Rightarrow> files \<Rightarrow> string \<Rightarrow> bool" where
  "identifierless unmarshal fs filePath =
     (case decode unmarshal fs filePath of None \<Rightarrow> False | Some md \<Rightarrow> fmID (mdFrontmatter md) = [])"

text \<open>
  What the statements about the download expect of it. A name is regular when it is not
  empty, not \<open>.\<close> or \<open>..\<close> and has no separator; \<open>pathOf\<close> is the path made of such names
  below the working directory. \<open>fileOf\<close> is the file of an article, for a YAML encoder
  that does not fail. \<open>placed doc dir node\<close> are the files of a tree in the directory
  \<open>dir\<close>, in the order of writing: the file of the node, named by its sanitized title
  with \<open>.md\<close>, with the content \<open>doc\<close> has for the identifier, then the files of the
  children, child by child, in the subdirectory named by the sanitized title.
\<close>

definition regularName :: "string \<Rightarrow> bool" where
  "regularName n = (n \<noteq> [] \<and> n \<noteq> ''.'' \<and> n \<noteq> ''..'' \<and> CHR ''/'' \<notin> set n)"

definition pathOf :: "string list \<Rightarrow> string" where
  "pathOf names = (if names = [] then ''.'' else joinWith ''/'' names)"

definition fileOf :: "(Frontmatter \<Rightarrow> string) \<Rightarrow> Article \<Rightarrow> string" where
  "fileOf yaml a =
     delimiter @ yaml \<lparr>fmID = ID a, fmTitle = Title a, fmURL = URL a\<rparr> @ delimiter @ Content a"

definition documentOf :: "(Frontmatter \<Rightarrow> string) \<Rightarrow> (string \<Rightarrow> Article option) \<Rightarrow> string \<Rightarrow> string" where
  "documentOf yaml m i = (case m i of None \<Rightarrow> [] | Some a \<Rightarrow> fileOf yaml a)"

fun placed :: "(string \<Rightarrow> string) \<Rightarrow> string list \<Rightarrow> ArticleNode \<Rightarrow> (string \<times> string) list" where
  "placed doc dir (ArticleNode i t st children path) =
     (pathOf (dir @ [SanitizeFilename t @ ''.md'']), doc i) #
     concat (map (placed doc (dir @ [SanitizeFilename t])) children)"

subsection \<open>Example data\<close>

text \<open>
  A knowledge base with the articles A, B and C, and a working directory in which A is
  unchanged up to a final newline, B is edited, C is gone and a draft was added.
\<close>

definition articleA :: Article where
  "articleA = \<lparr>ID = ''A-1'', Title = ''A'', Content = ''x'', ParentID = None, Order = 0,
                URL = ''https://yt/articles/A-1''\<rparr>"

definition articleB :: Article where
  "articleB = \<lparr>ID = ''A-2'', Title = ''B'', Content = ''y'', ParentID = Some ''A-1'', Order = 0,
                URL = ''https://yt/articles/A-2''\<rparr>"

definition articleC :: Article where
  "articleC = \<lparr>ID = ''A-3'', Title = ''C'', Content = ''w'', ParentID = Some ''A-1'', Order = 0,
                URL = ''https://yt/articles/A-3''\<rparr>"

definition fileA :: string where
  "fileA = delimiter @ ''id: A-1'' @ [CHR 0x0A] @ ''title: A'' @ [CHR 0x0A] @ delimiter @
           ''x'' @ [CHR 0x0A]"

definition fileB :: string where
  "fileB = delimiter @ ''id: A-2'' @ [CHR 0x0A] @ ''title: B'' @ [CHR 0x0A] @ delimiter @ ''z''"

definition fileDraft :: string where
  "fileDraft = delimiter @ ''title: Draft'' @ [CHR 0x0A] @ delimiter @ ''text''"

definition exampleFiles :: files where
  "exampleFiles p =
     (if p = ''A.md'' then Some fileA
      else if p = ''A/B.md'' then Some fileB
      else if p = ''A/Draft.md'' then Some fileDraft
      else None)"

text \<open>An article whose parent is not in the knowledge base.\<close>

definition articleLost :: Article where
  "articleLost = \<lparr>ID = ''A-9'', Title = ''Lost'', Content = ''v'', ParentID = Some ''Z-0'', Order = 0,
                   URL = ''https://yt/articles/A-9''\<rparr>"

definition knowledgeBase :: "Article list" where
  "knowledgeBase = [articleA, articleB, articleC, articleLost]"

text \<open>
  The configuration of the examples, and the answer of a service that holds the given
  articles, all of one project: the response that \<open>ListArticles\<close> decodes has no field
  for the order.
\<close>

definition ytConfig :: Config where
  "ytConfig = \<lparr>Token = ''perm:token'', cfgURL = ''https://yt/'', KBKey = ''KB''\<rparr>"

definition responseOf :: "Article \<Rightarrow> ArticleResponse" where
  "responseOf a = \<lparr>arID = ID a, arSummary = Title a, arContent = Content a, arParent = ParentID a,
                    arProjectID = ''0-1'', arProjectName = ''KB''\<rparr>"

definition served :: "Article list \<Rightarrow> http_reply" where
  "served articles = Reply 200 [] (Inr (map responseOf articles))"

definition noFailure :: "string \<Rightarrow> string \<Rightarrow> string \<Rightarrow> string option" where
  "noFailure i t c = None"

text \<open>
  The download scenario as the spec gives it: the root Intro with the children Setup
  (\<open>Order\<close> 0) and Advanced (\<open>Order\<close> 1). And an article with the title \<open>..\<close> and a child.
\<close>

definition articleIntro :: Article where
  "articleIntro = \<lparr>ID = ''K-1'', Title = ''Intro'', Content = ''Welcome'', ParentID = None, Order = 0,
                    URL = ''https://yt/articles/K-1''\<rparr>"

definition articleSetup :: Article where
  "articleSetup = \<lparr>ID = ''K-2'', Title = ''Setup'', Content = ''Install'', ParentID = Some ''K-1'',
                    Order = 0, URL = ''https://yt/articles/K-2''\<rparr>"

definition articleAdvanced :: Article where
  "articleAdvanced = \<lparr>ID = ''K-3'', Title = ''Advanced'', Content = ''Tune'', ParentID = Some ''K-1'',
                       Order = 1, URL = ''https://yt/articles/K-3''\<rparr>"

definition scenario :: "Article list" where
  "scenario = [articleIntro, articleSetup, articleAdvanced]"

definition noWriteError :: "string \<Rightarrow> string option" where
  "noWriteError path = None"

definition articleUp :: Article where
  "articleUp = \<lparr>ID = ''K-7'', Title = ''..'', Content = ''Above'', ParentID = None, Order = 0,
                 URL = ''https://yt/articles/K-7''\<rparr>"

definition articleBelow :: Article where
  "articleBelow = \<lparr>ID = ''K-8'', Title = ''Below'', Content = ''Under'', ParentID = Some ''K-7'',
                    Order = 0, URL = ''https://yt/articles/K-8''\<rparr>"

text \<open>
  A working directory with two more files without identifier, and the forest of the
  diff for the articles A, B and C before the local files are added.
\<close>

definition fileNotes :: string where
  "fileNotes = delimiter @ ''title: Notes'' @ [CHR 0x0A] @ delimiter @ ''todo''"

definition workingFiles :: files where
  "workingFiles p =
     (if p = ''Notes.md'' then Some fileNotes
      else if p = ''X/Y.md'' then Some fileNotes
      else exampleFiles p)"

definition workingTree :: "string list" where
  "workingTree = [''A.md'', ''A/B.md'', ''A/Draft.md'', ''Notes.md'', ''X/Y.md'']"

definition serverNodes :: "ArticleNode list" where
  "serverNodes =
     [ArticleNode ''A-1'' ''A'' StatusUnchanged
        [ArticleNode ''A-2'' ''B'' StatusModified [] ''A/B.md'',
         ArticleNode ''A-3'' ''C'' StatusDeleted [] []] ''A.md'']"

section \<open>Properties\<close>

subsection \<open>The remote catalog adapter\<close>

lemma convertArticles_Order:
  "a \<in> set (convertArticles c b ars) \<Longrightarrow> Order a = 0"
  by (induction ars) (auto simp: toArticle_def split: if_splits)

text \<open>
  C10. Every article of a successful \<open>ListArticles\<close> has \<open>Order = 0\<close>: the adapter never
  takes the sort key from the service, so any two articles it returns have equal keys.
\<close>

theorem C10_ListArticles_Order_zero:
  "ListArticles c reply = Inr arts \<Longrightarrow>
     (\<forall>a \<in> set arts. Order a = 0) \<and> (\<forall>a \<in> set arts. \<forall>b \<in> set arts. \<not> Order a < Order b)"
proof -
  assume "ListArticles c reply = Inr arts"
  then obtain b ars where "arts = convertArticles c b ars"
    by (auto simp: ListArticles_def Let_def split: http_reply.splits if_splits sum.splits)
  then have "\<forall>a \<in> set arts. Order a = 0"
    by (simp add: convertArticles_Order)
  then show ?thesis by simp
qed

theorem C10_ListArticles_Order_zero_witness:
  "ListArticles \<lparr>Token = ''t'', cfgURL = ''https://yt/'', KBKey = ''KB''\<rparr>
     (Reply 200 [] (Inr [
        \<lparr>arID = ''1'', arSummary = ''Intro'', arContent = ''x'', arParent = None,
         arProjectID = ''KB'', arProjectName = ''Docs''\<rparr>,
        \<lparr>arID = ''2'', arSummary = ''Setup'', arContent = ''y'', arParent = Some ''1'',
         arProjectID = ''0-1'', arProjectName = ''KB''\<rparr>,
        \<lparr>arID = ''3'', arSummary = ''Other'', arContent = ''z'', arParent = None,
         arProjectID = ''0-2'', arProjectName = ''Else''\<rparr>]))
   = Inr [
        \<lparr>ID = ''1'', Title = ''Intro'', Content = ''x'', ParentID = None, Order = 0,
         URL = ''https://yt/articles/1''\<rparr>,
        \<lparr>ID = ''2'', Title = ''Setup'', Content = ''y'', ParentID = Some ''1'', Order = 0,
         URL = ''https://yt/articles/2''\<rparr>]
   \<and> map Order [
        \<lparr>ID = ''1'', Title = ''Intro'', Content = ''x'', ParentID = None, Order = 0,
         URL = ''https://yt/articles/1''\<rparr>,
        \<lparr>ID = ''2'', Title = ''Setup'', Content = ''y'', ParentID = Some ''1'', Order = 0,
         URL = ''https://yt/articles/2''\<rparr>] = [0, 0]"
proof -
  let ?c = "\<lparr>Token = ''t'', cfgURL = ''https://yt/'', KBKey = ''KB''\<rparr>"
  let ?r = "Reply 200 [] (Inr [
        \<lparr>arID = ''1'', arSummary = ''Intro'', arContent = ''x'', arParent = None,
         arProjectID = ''KB'', arProjectName = ''Docs''\<rparr>,
        \<lparr>arID = ''2'', arSummary = ''Setup'', arContent = ''y'', arParent = Some ''1'',
         arProjectID = ''0-1'', arProjectName = ''KB''\<rparr>,
        \<lparr>arID = ''3'', arSummary = ''Other'', arContent = ''z'', arParent = None,
         arProjectID = ''0-2'', arProjectName = ''Else''\<rparr>])"
  let ?out = "[
        \<lparr>ID = ''1'', Title = ''Intro'', Content = ''x'', ParentID = None, Order = 0,
         URL = ''https://yt/articles/1''\<rparr>,
        \<lparr>ID = ''2'', Title = ''Setup'', Content = ''y'', ParentID = Some ''1'', Order = 0,
         URL = ''https://yt/articles/2''\<rparr>]"
  have run: "ListArticles ?c ?r = Inr ?out"
    by (simp add: ListArticles_def TrimSuffix_def StatusOK_def toArticle_def suffix_def)
  from C10_ListArticles_Order_zero [OF run] show ?thesis
    using run by simp
qed

subsection \<open>The local snapshot and the index of the server articles\<close>

lemma loadLocalFile_byID:
  "localByID (loadLocalFile u fs maps p) i =
     (case decode u fs p of
        None \<Rightarrow> localByID maps i
      | Some md \<Rightarrow> if fmID (mdFrontmatter md) = i \<and> i \<noteq> [] then Some md else localByID maps i)"
  by (auto simp: loadLocalFile_def decode_def split: option.splits sum.splits)

lemma foldl_loadLocalFile_byID:
  "localByID (foldl (loadLocalFile u fs) maps ps) i =
     (if i = [] \<or> carrying u fs ps i = [] then localByID maps i
      else Some (last (carrying u fs ps i)))"
proof (induction ps arbitrary: maps)
  case Nil
  then show ?case by (simp add: carrying_def List.map_filter_simps)
next
  case (Cons p ps)
  show ?case
    by (simp add: Cons.IH loadLocalFile_byID carrying_def List.map_filter_simps split: option.splits)
qed

lemma loadLocal_byID:
  "localByID (loadLocal u fs ps) i =
     (if i = [] \<or> carrying u fs ps i = [] then None else Some (last (carrying u fs ps i)))"
  by (simp add: loadLocal_def foldl_loadLocalFile_byID noLocal_def)

lemma indexByID_foldl:
  "foldl (\<lambda>m a. m(ID a \<mapsto> a)) m0 as i = Some a \<Longrightarrow>
     (a \<in> set as \<and> ID a = i) \<or> m0 i = Some a"
proof (induction as arbitrary: m0)
  case Nil
  then show ?case by simp
next
  case (Cons x as)
  from Cons.prems have "foldl (\<lambda>m a. m(ID a \<mapsto> a)) (m0(ID x \<mapsto> x)) as i = Some a"
    by (simp only: foldl_Cons)
  from Cons.IH [OF this] show ?case
    by (auto split: if_splits)
qed

lemma indexByID_Some: "indexByID as i = Some a \<Longrightarrow> a \<in> set as \<and> ID a = i"
  using indexByID_foldl [of Map.empty as i a] by (simp add: indexByID_def)

subsection \<open>The reconciler: the status of a server article\<close>

lemma checkArticle_status:
  "articleStatus (checkArticle s loc sm k) i =
     (if k = i \<and> s i \<noteq> None
      then Some (case localByID loc i of
                   None \<Rightarrow> StatusDeleted
                 | Some md \<Rightarrow> if TrimSpace (mdContent md) = TrimSpace (Content (the (s i)))
                             then StatusUnchanged else StatusModified)
      else articleStatus sm i)"
  by (auto simp: checkArticle_def Let_def split: option.splits)

lemma foldl_checkArticle_status:
  "articleStatus (foldl (checkArticle s loc) sm ks) i =
     (if i \<in> set ks \<and> s i \<noteq> None
      then Some (case localByID loc i of
                   None \<Rightarrow> StatusDeleted
                 | Some md \<Rightarrow> if TrimSpace (mdContent md) = TrimSpace (Content (the (s i)))
                             then StatusUnchanged else StatusModified)
      else articleStatus sm i)"
proof (induction ks arbitrary: sm)
  case Nil
  then show ?case by simp
next
  case (Cons k ks)
  show ?case by (auto simp: Cons.IH checkArticle_status)
qed

lemma buildTreeNode_status:
  "buildTreeNode n rng shuffle m sm a = Some t \<Longrightarrow>
     nStatus t = (case articleStatus sm (ID a) of None \<Rightarrow> StatusUnchanged | Some st \<Rightarrow> st)"
  by (cases n) (auto split: option.splits)

text \<open>
  C2. The status that the reconciler gives to a server article \<open>i\<close>: without a decoded
  local file carrying \<open>i\<close> (an empty identifier is none) it is \<open>StatusDeleted\<close>, whatever
  other files there are; with one, the contents are compared after \<open>TrimSpace\<close> on both
  sides, equal is \<open>StatusUnchanged\<close>, different is \<open>StatusModified\<close>. When several files
  carry \<open>i\<close>, the last one in the order of the file list is the one compared. It is the
  status of the node that the tree builder makes for an article with this identifier.
\<close>

theorem C2_status:
  "i \<in> set ks \<Longrightarrow> serverByID i = Some article \<Longrightarrow>
   articleStatus (checkServerArticles ks serverByID (loadLocal unmarshal fs localFiles)) i =
     Some (if i = [] \<or> carrying unmarshal fs localFiles i = [] then StatusDeleted
           else if TrimSpace (mdContent (last (carrying unmarshal fs localFiles i))) =
                   TrimSpace (Content article)
                then StatusUnchanged else StatusModified)
   \<and> (ID a = i \<and>
        buildTreeNode depth rng shuffle m
          (checkServerArticles ks serverByID (loadLocal unmarshal fs localFiles)) a = Some node \<longrightarrow>
        nStatus node =
          (if i = [] \<or> carrying unmarshal fs localFiles i = [] then StatusDeleted
           else if TrimSpace (mdContent (last (carrying unmarshal fs localFiles i))) =
                   TrimSpace (Content article)
                then StatusUnchanged else StatusModified))"
proof -
  assume i: "i \<in> set ks" and s: "serverByID i = Some article"
  let ?S = "if i = [] \<or> carrying unmarshal fs localFiles i = [] then StatusDeleted
           else if TrimSpace (mdContent (last (carrying unmarshal fs localFiles i))) =
                   TrimSpace (Content article)
                then StatusUnchanged else StatusModified"
  let ?sm = "checkServerArticles ks serverByID (loadLocal unmarshal fs localFiles)"
  from i s have st: "articleStatus ?sm i = Some ?S"
    by (simp add: checkServerArticles_def foldl_checkArticle_status loadLocal_byID)
  have "nStatus node = ?S" if "ID a = i" "buildTreeNode depth rng shuffle m ?sm a = Some node"
    using buildTreeNode_status [OF that(2)] that(1) st by simp
  with st show ?thesis by blast
qed

theorem C2_status_witness:
  "articleStatus (checkServerArticles [''A-3'', ''A-1'', ''A-2''] (indexByID [articleA, articleB, articleC])
     (loadLocal plainUnmarshal exampleFiles [''A.md'', ''A/B.md'', ''A/Draft.md''])) ''A-1'' = Some StatusUnchanged
   \<and> articleStatus (checkServerArticles [''A-3'', ''A-1'', ''A-2''] (indexByID [articleA, articleB, articleC])
     (loadLocal plainUnmarshal exampleFiles [''A.md'', ''A/B.md'', ''A/Draft.md''])) ''A-2'' = Some StatusModified
   \<and> articleStatus (checkServerArticles [''A-3'', ''A-1'', ''A-2''] (indexByID [articleA, articleB, articleC])
     (loadLocal plainUnmarshal exampleFiles [''A.md'', ''A/B.md'', ''A/Draft.md''])) ''A-3'' = Some StatusDeleted
   \<and> buildRootNodes 2 (\<lambda>i. [''A-1'', ''A-2'', ''A-3'']) (\<lambda>xs. xs) [articleA, articleB, articleC]
       (checkServerArticles [''A-3'', ''A-1'', ''A-2''] (indexByID [articleA, articleB, articleC])
          (loadLocal plainUnmarshal exampleFiles [''A.md'', ''A/B.md'', ''A/Draft.md''])) = Some serverNodes"
proof -
  let ?ks = "[''A-3'', ''A-1'', ''A-2'']"
  let ?s = "indexByID [articleA, articleB, articleC]"
  let ?files = "[''A.md'', ''A/B.md'', ''A/Draft.md'']"
  have sa: "?s ''A-1'' = Some articleA" and sb: "?s ''A-2'' = Some articleB"
    and sc: "?s ''A-3'' = Some articleC"
    by (simp_all add: indexByID_def articleA_def articleB_def articleC_def)
  have ca: "carrying plainUnmarshal exampleFiles ?files ''A-1'' =
              [\<lparr>mdFrontmatter = \<lparr>fmID = ''A-1'', fmTitle = ''A'', fmURL = []\<rparr>,
                mdContent = ''x'' @ [CHR 0x0A]\<rparr>]"
    by code_simp
  have cb: "carrying plainUnmarshal exampleFiles ?files ''A-2'' =
              [\<lparr>mdFrontmatter = \<lparr>fmID = ''A-2'', fmTitle = ''B'', fmURL = []\<rparr>, mdContent = ''z''\<rparr>]"
    by code_simp
  have cc: "carrying plainUnmarshal exampleFiles ?files ''A-3'' = []"
    by code_simp
  have ta: "TrimSpace (''x'' @ [CHR 0x0A]) = TrimSpace (Content articleA)"
    by code_simp
  have tb: "TrimSpace ''z'' \<noteq> TrimSpace (Content articleB)"
    by code_simp
  have forest: "buildRootNodes 2 (\<lambda>i. [''A-1'', ''A-2'', ''A-3'']) (\<lambda>xs. xs)
       [articleA, articleB, articleC] (checkServerArticles ?ks ?s (loadLocal plainUnmarshal exampleFiles ?files)) =
       Some serverNodes"
    by code_simp
  show ?thesis
    using C2_status [where i = "''A-1''" and ks = ?ks and serverByID = ?s and article = articleA
          and unmarshal = plainUnmarshal and fs = exampleFiles and localFiles = ?files]
      C2_status [where i = "''A-2''" and ks = ?ks and serverByID = ?s and article = articleB
          and unmarshal = plainUnmarshal and fs = exampleFiles and localFiles = ?files]
      C2_status [where i = "''A-3''" and ks = ?ks and serverByID = ?s and article = articleC
          and unmarshal = plainUnmarshal and fs = exampleFiles and localFiles = ?files]
      sa sb sc ca cb cc ta tb forest
    by simp
qed

subsection \<open>The markdown codec\<close>

text \<open>
  C9, at the article with the identifier \<open>a\<close>, the title \<open>x---\<close> and the body \<open>b\<close>: the
  YAML line of the title ends in the delimiter, \<open>ParseMarkdown\<close> takes it for the end of
  the frontmatter, and what is decoded has the title \<open>x\<close> and the body \<open>---\n b\<close>.
\<close>

theorem C9_title_ending_in_dashes:
  "WriteMarkdown plainMarshal \<lparr>fmID = ''a'', fmTitle = ''x---'', fmURL = []\<rparr> ''b'' =
     Inr (delimiter @ ''id: a'' @ [CHR 0x0A] @ ''title: x---'' @ [CHR 0x0A] @ delimiter @ ''b'')
   \<and> ParseMarkdown plainUnmarshal
       (delimiter @ ''id: a'' @ [CHR 0x0A] @ ''title: x---'' @ [CHR 0x0A] @ delimiter @ ''b'') =
     Inr \<lparr>mdFrontmatter = \<lparr>fmID = ''a'', fmTitle = ''x'', fmURL = []\<rparr>,
          mdContent = delimiter @ ''b''\<rparr>"
  by code_simp

subsection \<open>The push\<close>

text \<open>
  C7. Pushing one file that decodes: without an identifier the result is the error
  \<open>CannotPush\<close> and no method of the client is called; with an identifier the one call is
  \<open>UpdateArticle\<close> with the identifier, title and content of the file, and the result is
  the error of that call, or success with the line \<open>Updated\<close> printed last.
\<close>

theorem C7_pushSinglePage:
  "fs filePath = Some content \<Longrightarrow> ParseMarkdown unmarshal content = Inr md \<Longrightarrow>
     (fmID (mdFrontmatter md) = [] \<longrightarrow>
        snd (pushSinglePage unmarshal fs update filePath) = Some (CannotPush (fmTitle (mdFrontmatter md))) \<and>
        remoteCallsOf (fst (pushSinglePage unmarshal fs update filePath)) = []) \<and>
     (fmID (mdFrontmatter md) \<noteq> [] \<longrightarrow>
        remoteCallsOf (fst (pushSinglePage unmarshal fs update filePath)) =
          [UpdateArticleCall (fmID (mdFrontmatter md)) (fmTitle (mdFrontmatter md)) (mdContent md)] \<and>
        (case update (fmID (mdFrontmatter md)) (fmTitle (mdFrontmatter md)) (mdContent md) of
           None \<Rightarrow> snd (pushSinglePage unmarshal fs update filePath) = None \<and>
                   last (fst (pushSinglePage unmarshal fs update filePath)) =
                     Print (Updated (fmTitle (mdFrontmatter md)))
         | Some e \<Rightarrow> snd (pushSinglePage unmarshal fs update filePath) = Some (UpdateFailed e)))"
  by (simp add: pushSinglePage_def split: option.splits)

theorem C7_pushSinglePage_witness:
  "snd (pushSinglePage plainUnmarshal exampleFiles noFailure ''A/Draft.md'') = Some (CannotPush ''Draft'')
   \<and> remoteCallsOf (fst (pushSinglePage plainUnmarshal exampleFiles noFailure ''A/Draft.md'')) = []
   \<and> remoteCallsOf (fst (pushSinglePage plainUnmarshal exampleFiles noFailure ''A/B.md'')) =
       [UpdateArticleCall ''A-2'' ''B'' ''z'']
   \<and> snd (pushSinglePage plainUnmarshal exampleFiles noFailure ''A/B.md'') = None
   \<and> snd (pushSinglePage plainUnmarshal exampleFiles (\<lambda>i t c. Some ''API error: 404'') ''A/B.md'') =
       Some (UpdateFailed ''API error: 404'')"
proof -
  have fd: "exampleFiles ''A/Draft.md'' = Some fileDraft" and fb: "exampleFiles ''A/B.md'' = Some fileB"
    by (simp_all add: exampleFiles_def)
  have pd: "ParseMarkdown plainUnmarshal fileDraft =
              Inr \<lparr>mdFrontmatter = \<lparr>fmID = [], fmTitle = ''Draft'', fmURL = []\<rparr>, mdContent = ''text''\<rparr>"
    by code_simp
  have pb: "ParseMarkdown plainUnmarshal fileB =
              Inr \<lparr>mdFrontmatter = \<lparr>fmID = ''A-2'', fmTitle = ''B'', fmURL = []\<rparr>, mdContent = ''z''\<rparr>"
    by code_simp
  show ?thesis
    using C7_pushSinglePage [where fs = exampleFiles and filePath = "''A/Draft.md''"
          and content = fileDraft and unmarshal = plainUnmarshal and update = noFailure, OF fd pd]
      C7_pushSinglePage [where fs = exampleFiles and filePath = "''A/B.md''"
          and content = fileB and unmarshal = plainUnmarshal and update = noFailure, OF fb pb]
      C7_pushSinglePage [where fs = exampleFiles and filePath = "''A/B.md''"
          and content = fileB and unmarshal = plainUnmarshal
          and update = "\<lambda>i t c. Some ''API error: 404''", OF fb pb]
    by (simp add: noFailure_def)
qed

lemma loadLocalFile_paths:
  "localPaths (loadLocalFile u fs maps p) i =
     (case decode u fs p of
        None \<Rightarrow> localPaths maps i
      | Some md \<Rightarrow> if fmID (mdFrontmatter md) = i \<and> i \<noteq> [] then Some p else localPaths maps i)"
  by (auto simp: loadLocalFile_def decode_def split: option.splits sum.splits)

lemma foldl_loadLocalFile_paths:
  "localPaths (foldl (loadLocalFile u fs) maps ps) i =
     (if i = [] \<or> carriers u fs ps i = [] then localPaths maps i
      else Some (last (carriers u fs ps i)))"
proof (induction ps arbitrary: maps)
  case Nil
  then show ?case by (simp add: carriers_def)
next
  case (Cons p ps)
  show ?case
    by (simp add: Cons.IH loadLocalFile_paths carriers_def split: option.splits)
qed

lemma loadLocal_paths:
  "localPaths (loadLocal u fs ps) i =
     (if i = [] \<or> carriers u fs ps i = [] then None else Some (last (carriers u fs ps i)))"
  by (simp add: loadLocal_def foldl_loadLocalFile_paths noLocal_def)

lemma carriers_carrying: "(carriers u fs ps i = []) = (carrying u fs ps i = [])"
  by (induction ps) (auto simp: carriers_def carrying_def List.map_filter_simps split: option.splits)

lemma collectPage_eq:
  "collectPage (loadLocal u fs lf) (indexByID sa) pages k =
     pages @ (if modified u fs lf sa k then [pageOf u fs lf k] else [])"
  by (auto simp: collectPage_def modified_def pageOf_def loadLocal_byID loadLocal_paths carriers_carrying
      split: option.splits)

lemma foldl_collectPage:
  "foldl (collectPage (loadLocal u fs lf) (indexByID sa)) pages ks =
     pages @ map (pageOf u fs lf) (filter (modified u fs lf sa) ks)"
  by (induction ks arbitrary: pages) (simp_all add: collectPage_eq)

lemma collectPages_eq:
  "collectPages ks (loadLocal u fs lf) (indexByID sa) =
     map (pageOf u fs lf) (filter (modified u fs lf sa) ks)"
  by (simp add: collectPages_def foldl_collectPage)

lemma foldl_collectNewPage:
  "foldl (collectNewPage u fs (indexByID sa)) acc ps = acc @ filter (isNewFile u fs sa) ps"
  by (induction ps arbitrary: acc)
     (auto simp: collectNewPage_def isNewFile_def decode_def Let_def split: option.splits sum.splits)

lemma collectNewPages_filter:
  "collectNewPages u fs (indexByID sa) ps = filter (isNewFile u fs sa) ps"
  by (simp add: collectNewPages_def foldl_collectNewPage)

lemma enumerate_map: "enumerate n (map f xs) = map (\<lambda>(k, x). (k, f x)) (enumerate n xs)"
  by (induction xs arbitrary: n) auto

lemma planLines_pages:
  "planLines (map (pageOf u fs lf) ids) =
     map (\<lambda>(n, i). Print (PageLine (n + 1)
                           (fmTitle (mdFrontmatter (last (carrying u fs lf i))))
                           (last (carriers u fs lf i))))
       (enumerate 0 ids)"
  by (simp add: planLines_def enumerate_map pageOf_def split_def comp_def)

lemma pushPages_pages:
  "\<forall>i \<in> set ids. modified u fs lf sa i \<Longrightarrow>
   pushPages update (loadLocal u fs lf) (map (pageOf u fs lf) ids) =
     (concat (map (updateEvents update u fs lf) ids), None)"
  by (induction ids)
     (auto simp: loadLocal_byID modified_def pageOf_def updateEvents_def Let_def split: option.splits)

lemma deletedWarning_eq:
  "concat (map (deletedWarning (loadLocal u fs lf) (indexByID sa)) ks) = deletionWarnings u fs lf sa ks"
  by (induction ks) (auto simp: deletedWarning_def deletionWarnings_def loadLocal_byID split: option.splits)

lemma remoteCallsOf_append [simp]: "remoteCallsOf (xs @ ys) = remoteCallsOf xs @ remoteCallsOf ys"
  by (induction xs rule: remoteCallsOf.induct) auto

lemma remoteCallsOf_prints [simp]: "remoteCallsOf (map Print ms) = []"
  by (induction ms) auto

lemma pushAllChanges_run:
  assumes l: "ListArticles cfg reply = Inr sa"
  shows "pushAllChanges u fs (Inr lf) cfg reply ksLocal ksServer uni stdin update =
     (if filter (modified u fs lf sa) ksLocal = [] \<and> filter (isNewFile u fs sa) lf = []
      then ([Remote ListArticlesCall, Print NoChangesToPush], None)
      else (case ReadString stdin (CHR 0x0A) of
              None \<Rightarrow>
                (planOf u fs lf (filter (modified u fs lf sa) ksLocal) (filter (isNewFile u fs sa) lf),
                 Some ReadResponseFailed)
            | Some line \<Rightarrow>
                if TrimSpace (ToLower uni line) = ''y'' \<or> TrimSpace (ToLower uni line) = ''yes''
                then (planOf u fs lf (filter (modified u fs lf sa) ksLocal) (filter (isNewFile u fs sa) lf) @
                      [Print PushingChanges] @
                      concat (map (updateEvents update u fs lf) (filter (modified u fs lf sa) ksLocal)) @
                      deletionWarnings u fs lf sa ksServer @ [Print PushComplete], None)
                else (planOf u fs lf (filter (modified u fs lf sa) ksLocal) (filter (isNewFile u fs sa) lf) @
                      [Print PushCancelled], None)))"
proof -
  let ?ids = "filter (modified u fs lf sa) ksLocal"
  have p: "pushPages update (loadLocal u fs lf) (map (pageOf u fs lf) ?ids) =
             (concat (map (updateEvents update u fs lf) ?ids), None)"
    by (rule pushPages_pages [where sa = sa]) simp
  show ?thesis
    by (simp add: pushAllChanges_def l Let_def collectPages_eq collectNewPages_filter planLines_pages
        p deletedWarning_eq planOf_def split: option.splits)
qed

lemma remoteCallsOf_planOf [simp]: "remoteCallsOf (planOf u fs lf ids new) = [ListArticlesCall]"
proof -
  have "map (\<lambda>(n, i). Print (PageLine (n + 1)
                           (fmTitle (mdFrontmatter (last (carrying u fs lf i))))
                           (last (carriers u fs lf i)))) (enumerate 0 ids) =
        map Print (map (\<lambda>(n, i). PageLine (n + 1)
                           (fmTitle (mdFrontmatter (last (carrying u fs lf i))))
                           (last (carriers u fs lf i))) (enumerate 0 ids))"
    by (simp add: split_def)
  then show ?thesis
    by (simp add: planOf_def del: map_map)
qed

lemma remoteCallsOf_updateEvents [simp]:
  "remoteCallsOf (concat (map (updateEvents update u fs lf) ids)) = map (updateOf u fs lf) ids"
  by (induction ids) (auto simp: updateEvents_def updateOf_def Let_def split: option.splits)

lemma remoteCallsOf_deletionWarnings [simp]: "remoteCallsOf (deletionWarnings u fs lf sa ks) = []"
  by (induction ks) (auto simp: deletionWarnings_def split: option.splits)

lemma pushAllChanges_calls:
  assumes l: "ListArticles cfg reply = Inr sa"
  shows "remoteCallsOf (fst (pushAllChanges u fs (Inr lf) cfg reply ksLocal ksServer uni stdin update)) =
     ListArticlesCall #
     (if accepted uni stdin \<and> \<not> (filter (modified u fs lf sa) ksLocal = [] \<and> filter (isNewFile u fs sa) lf = [])
      then map (updateOf u fs lf) (filter (modified u fs lf sa) ksLocal) else [])"
  by (simp add: pushAllChanges_run [OF l] accepted_def split: option.splits)

lemma skipped_planOf:
  "(Print (SkippedNewArticles ns) \<in> set (planOf u fs lf ids new)) = (new \<noteq> [] \<and> ns = new)"
  by (auto simp: planOf_def)

lemma skipped_updateEvents:
  "Print (SkippedNewArticles ns) \<notin> set (updateEvents update u fs lf i)"
  by (auto simp: updateEvents_def Let_def split: option.splits)

lemma skipped_deletionWarnings:
  "Print (SkippedNewArticles ns) \<notin> set (deletionWarnings u fs lf sa ks)"
  by (auto simp: deletionWarnings_def split: option.splits if_splits)

lemma deleted_planOf: "Print (PageDeletedLocally t w) \<notin> set (planOf u fs lf ids new)"
  by (auto simp: planOf_def)

lemma deleted_updateEvents:
  "Print (PageDeletedLocally t w) \<notin> set (updateEvents update u fs lf i)"
  by (auto simp: updateEvents_def Let_def split: option.splits)

lemma deleted_deletionWarnings:
  "(Print (PageDeletedLocally t w) \<in> set (deletionWarnings u fs lf sa ks)) =
     (\<exists>k \<in> set ks. \<exists>a. indexByID sa k = Some a \<and> (k = [] \<or> carrying u fs lf k = []) \<and>
         t = Title a \<and> w = URL a)"
proof -
  have single: "(Print (PageDeletedLocally t w) \<in>
            set (case indexByID sa k of
                   None \<Rightarrow> []
                 | Some a \<Rightarrow> if k = [] \<or> carrying u fs lf k = []
                             then [Print (PageDeletedLocally (Title a) (URL a))] else [])) =
         (\<exists>a. indexByID sa k = Some a \<and> (k = [] \<or> carrying u fs lf k = []) \<and>
              t = Title a \<and> w = URL a)" for k
    by (cases "indexByID sa k") auto
  show ?thesis
    unfolding deletionWarnings_def set_concat set_map
    by (simp only: UN_iff image_iff bex_simps single)
qed

lemma empty_line_refused: "TrimSpace (ToLower uni [CHR 0x0A]) = []"
  by (simp add: ToLower_def isASCII_def lowerByte_def TrimSpace_def TrimLeftSpace.simps
      TrimRightSpace.simps spaceAtStart_def spaceAtEnd_def spaceRunes_def)

lemma modified_ids:
  assumes v: "visitsKeys ksLocal (localByID (loadLocal u fs lf))"
  shows "set (filter (modified u fs lf sa) ksLocal) = {i. modified u fs lf sa i}"
    and "distinct (filter (modified u fs lf sa) ksLocal)"
proof -
  have "i \<in> set ksLocal" if "modified u fs lf sa i" for i
  proof -
    from that have "localByID (loadLocal u fs lf) i \<noteq> None"
      by (simp add: modified_def loadLocal_byID)
    with v show ?thesis by (auto simp: visitsKeys_def)
  qed
  then show "set (filter (modified u fs lf sa) ksLocal) = {i. modified u fs lf sa i}"
    by auto
  from v show "distinct (filter (modified u fs lf sa) ksLocal)"
    by (simp add: visitsKeys_def)
qed

text \<open>
  C6, as amended. \<open>ids\<close> are the identifiers to update, in the order of the loop over
  \<open>localByID\<close> (all the modified ones, each once, when that loop visits every key), and
  \<open>new\<close> the new files. With both empty the bulk push prints that there are no changes
  and returns without error, without prompt and without reading the input. Otherwise it
  prints the plan and reads a line. On a line that is \<open>y\<close> or \<open>yes\<close> after lowering and
  trimming it calls \<open>UpdateArticle\<close> for every identifier of the plan, in order, prints
  how each went, the warnings about pages deleted locally and that the push is complete.
  On any other line, the empty one among them, it prints that the push is cancelled and
  returns without error. When the input ends before the line does, it returns the error
  that the response could not be read. In these two cases \<open>ListArticles\<close> is the only
  call made.
\<close>

theorem C6_confirmation:
  assumes l: "ListArticles cfg reply = Inr serverArticles"
    and i: "ids = filter (modified unmarshal fs localFiles serverArticles) ksLocal"
    and n: "new = filter (isNewFile unmarshal fs serverArticles) localFiles"
    and r: "run = pushAllChanges unmarshal fs (Inr localFiles) cfg reply ksLocal ksServer uni stdin update"
  shows "(ids = [] \<and> new = [] \<longrightarrow> run = ([Remote ListArticlesCall, Print NoChangesToPush], None))
   \<and> (ids \<noteq> [] \<or> new \<noteq> [] \<longrightarrow>
        (ReadString stdin (CHR 0x0A) = None \<longrightarrow>
           run = (planOf unmarshal fs localFiles ids new, Some ReadResponseFailed) \<and>
           remoteCallsOf (fst run) = [ListArticlesCall]) \<and>
        (\<forall>line. ReadString stdin (CHR 0x0A) = Some line \<longrightarrow>
           (if TrimSpace (ToLower uni line) = ''y'' \<or> TrimSpace (ToLower uni line) = ''yes''
            then run = (planOf unmarshal fs localFiles ids new @ [Print PushingChanges] @
                        concat (map (updateEvents update unmarshal fs localFiles) ids) @
                        deletionWarnings unmarshal fs localFiles serverArticles ksServer @
                        [Print PushComplete], None) \<and>
                 remoteCallsOf (fst run) = ListArticlesCall # map (updateOf unmarshal fs localFiles) ids
            else run = (planOf unmarshal fs localFiles ids new @ [Print PushCancelled], None) \<and>
                 remoteCallsOf (fst run) = [ListArticlesCall])))
   \<and> (visitsKeys ksLocal (localByID (loadLocal unmarshal fs localFiles)) \<longrightarrow>
        set ids = {k. modified unmarshal fs localFiles serverArticles k} \<and> distinct ids)
   \<and> ReadString [] (CHR 0x0A) = None
   \<and> ReadString [CHR 0x0A] (CHR 0x0A) = Some [CHR 0x0A]
   \<and> TrimSpace (ToLower uni [CHR 0x0A]) = []"
  unfolding r i n
  apply (intro conjI)
       apply (simp add: pushAllChanges_run [OF l])
      apply (simp add: pushAllChanges_run [OF l])
     apply (intro impI conjI modified_ids; assumption)
    apply (simp add: ReadString_def)
   apply (simp add: ReadString_def)
  apply (rule empty_line_refused)
  done

text \<open>
  C6 as stated fails: on an empty input, and on an answer with no end of line, the push
  does not cancel. It returns the error that the response could not be read.
\<close>

theorem C6_end_of_input_is_an_error:
  "pushAllChanges plainUnmarshal exampleFiles (Inr [''A.md'', ''A/B.md'']) ytConfig
      (served [articleA, articleB]) [''A-2'', ''A-1''] [''A-1'', ''A-2''] (\<lambda>s. s) [] noFailure =
     ([Remote ListArticlesCall, Print PagesToBePushed, Print (PageLine 1 ''B'' ''A/B.md''),
       Print ProceedWithPush, ReadLine], Some ReadResponseFailed)
   \<and> pushAllChanges plainUnmarshal exampleFiles (Inr [''A.md'', ''A/B.md'']) ytConfig
      (served [articleA, articleB]) [''A-2'', ''A-1''] [''A-1'', ''A-2''] (\<lambda>s. s) ''n'' noFailure =
     ([Remote ListArticlesCall, Print PagesToBePushed, Print (PageLine 1 ''B'' ''A/B.md''),
       Print ProceedWithPush, ReadLine], Some ReadResponseFailed)"
  by code_simp

theorem C6_confirmation_witness:
  "ListArticles ytConfig (served [articleA, articleB]) = Inr [articleA, articleB]
   \<and> filter (modified plainUnmarshal exampleFiles [''A.md'', ''A/B.md''] [articleA, articleB])
        [''A-2'', ''A-1''] = [''A-2'']
   \<and> pushAllChanges plainUnmarshal exampleFiles (Inr [''A.md'', ''A/B.md'']) ytConfig
        (served [articleA, articleB]) [''A-2'', ''A-1''] [''A-1'', ''A-2''] (\<lambda>s. s)
        ('' Yes'' @ [CHR 0x0A]) noFailure =
       ([Remote ListArticlesCall, Print PagesToBePushed, Print (PageLine 1 ''B'' ''A/B.md''),
         Print ProceedWithPush, ReadLine, Print PushingChanges,
         Remote (UpdateArticleCall ''A-2'' ''B'' ''z''), Print (Updated ''B''), Print PushComplete], None)
   \<and> pushAllChanges plainUnmarshal exampleFiles (Inr [''A.md'', ''A/B.md'']) ytConfig
        (served [articleA, articleB]) [''A-2'', ''A-1''] [''A-1'', ''A-2''] (\<lambda>s. s)
        (''no'' @ [CHR 0x0A]) noFailure =
       ([Remote ListArticlesCall, Print PagesToBePushed, Print (PageLine 1 ''B'' ''A/B.md''),
         Print ProceedWithPush, ReadLine, Print PushCancelled], None)
   \<and> pushAllChanges plainUnmarshal exampleFiles (Inr [''A.md'', ''A/B.md'']) ytConfig
        (served [articleA, articleB]) [''A-2'', ''A-1''] [''A-1'', ''A-2''] (\<lambda>s. s)
        ''yes'' noFailure =
       ([Remote ListArticlesCall, Print PagesToBePushed, Print (PageLine 1 ''B'' ''A/B.md''),
         Print ProceedWithPush, ReadLine], Some ReadResponseFailed)
   \<and> pushAllChanges plainUnmarshal exampleFiles (Inr [''A.md'']) ytConfig
        (served [articleA, articleB]) [''A-1''] [''A-1'', ''A-2''] (\<lambda>s. s)
        (''y'' @ [CHR 0x0A]) noFailure =
       ([Remote ListArticlesCall, Print NoChangesToPush], None)"
proof -
  let ?files = "[''A.md'', ''A/B.md'']"
  let ?ks = "[''A-2'', ''A-1'']"
  let ?run = "\<lambda>stdin. pushAllChanges plainUnmarshal exampleFiles (Inr ?files) ytConfig
        (served [articleA, articleB]) ?ks [''A-1'', ''A-2''] (\<lambda>s. s) stdin noFailure"
  have l: "ListArticles ytConfig (served [articleA, articleB]) = Inr [articleA, articleB]"
    by code_simp
  have ids: "filter (modified plainUnmarshal exampleFiles ?files [articleA, articleB]) ?ks = [''A-2'']"
    by code_simp
  have new: "filter (isNewFile plainUnmarshal exampleFiles [articleA, articleB]) ?files = []"
    by code_simp
  have ids1: "filter (modified plainUnmarshal exampleFiles [''A.md''] [articleA, articleB]) [''A-1''] = []"
    by code_simp
  have new1: "filter (isNewFile plainUnmarshal exampleFiles [articleA, articleB]) [''A.md''] = []"
    by code_simp
  have plan: "planOf plainUnmarshal exampleFiles ?files [''A-2''] [] =
                [Remote ListArticlesCall, Print PagesToBePushed, Print (PageLine 1 ''B'' ''A/B.md''),
                 Print ProceedWithPush, ReadLine]"
    by code_simp
  have ups: "updateEvents noFailure plainUnmarshal exampleFiles ?files ''A-2'' =
               [Remote (UpdateArticleCall ''A-2'' ''B'' ''z''), Print (Updated ''B'')]"
    by code_simp
  have dels: "deletionWarnings plainUnmarshal exampleFiles ?files [articleA, articleB] [''A-1'', ''A-2''] = []"
    by code_simp
  have r1: "ReadString ('' Yes'' @ [CHR 0x0A]) (CHR 0x0A) = Some ('' Yes'' @ [CHR 0x0A])"
    and a1: "TrimSpace (ToLower (\<lambda>s. s) ('' Yes'' @ [CHR 0x0A])) = ''yes''"
    and r2: "ReadString (''no'' @ [CHR 0x0A]) (CHR 0x0A) = Some (''no'' @ [CHR 0x0A])"
    and a2: "TrimSpace (ToLower (\<lambda>s. s) (''no'' @ [CHR 0x0A])) = ''no''"
    and r3: "ReadString ''yes'' (CHR 0x0A) = None"
    by code_simp+
  have yes: "?run ('' Yes'' @ [CHR 0x0A]) =
       ([Remote ListArticlesCall, Print PagesToBePushed, Print (PageLine 1 ''B'' ''A/B.md''),
         Print ProceedWithPush, ReadLine, Print PushingChanges,
         Remote (UpdateArticleCall ''A-2'' ''B'' ''z''), Print (Updated ''B''), Print PushComplete], None)"
    using C6_confirmation [OF l refl refl refl, where unmarshal = plainUnmarshal and fs = exampleFiles
        and localFiles = ?files and ksLocal = ?ks and ksServer = "[''A-1'', ''A-2'']" and uni = "\<lambda>s. s"
        and stdin = "'' Yes'' @ [CHR 0x0A]" and update = noFailure] a1
    unfolding ids new plan r1 by (simp add: ups dels)
  have no: "?run (''no'' @ [CHR 0x0A]) =
       ([Remote ListArticlesCall, Print PagesToBePushed, Print (PageLine 1 ''B'' ''A/B.md''),
         Print ProceedWithPush, ReadLine, Print PushCancelled], None)"
    using C6_confirmation [OF l refl refl refl, where unmarshal = plainUnmarshal and fs = exampleFiles
        and localFiles = ?files and ksLocal = ?ks and ksServer = "[''A-1'', ''A-2'']" and uni = "\<lambda>s. s"
        and stdin = "''no'' @ [CHR 0x0A]" and update = noFailure] a2
    unfolding ids new plan r2 by simp
  have eof: "?run ''yes'' =
       ([Remote ListArticlesCall, Print PagesToBePushed, Print (PageLine 1 ''B'' ''A/B.md''),
         Print ProceedWithPush, ReadLine], Some ReadResponseFailed)"
    using C6_confirmation [OF l refl refl refl, where unmarshal = plainUnmarshal and fs = exampleFiles
        and localFiles = ?files and ksLocal = ?ks and ksServer = "[''A-1'', ''A-2'']" and uni = "\<lambda>s. s"
        and stdin = "''yes''" and update = noFailure]
    unfolding ids new plan r3 by simp
  have none: "pushAllChanges plainUnmarshal exampleFiles (Inr [''A.md'']) ytConfig
        (served [articleA, articleB]) [''A-1''] [''A-1'', ''A-2''] (\<lambda>s. s)
        (''y'' @ [CHR 0x0A]) noFailure =
       ([Remote ListArticlesCall, Print NoChangesToPush], None)"
    using C6_confirmation [OF l refl refl refl, where unmarshal = plainUnmarshal and fs = exampleFiles
        and localFiles = "[''A.md'']" and ksLocal = "[''A-1'']" and ksServer = "[''A-1'', ''A-2'']"
        and uni = "\<lambda>s. s" and stdin = "''y'' @ [CHR 0x0A]" and update = noFailure]
    unfolding ids1 new1 by simp
  from l ids yes no eof none show ?thesis
    by simp
qed

lemma modified_update:
  assumes "modified u fs lf sa i"
  shows "\<exists>a. i \<noteq> [] \<and> carrying u fs lf i \<noteq> [] \<and>
          indexByID sa i = Some a \<and> a \<in> set sa \<and> ID a = i \<and>
          TrimSpace (mdContent (last (carrying u fs lf i))) \<noteq> TrimSpace (Content a) \<and>
          (\<forall>p \<in> set lf. isNewFile u fs sa p \<longrightarrow>
             (\<forall>md. decode u fs p = Some md \<longrightarrow> fmID (mdFrontmatter md) \<noteq> i))"
proof -
  from assms obtain a where a: "i \<noteq> []" "carrying u fs lf i \<noteq> []" "indexByID sa i = Some a"
    "TrimSpace (mdContent (last (carrying u fs lf i))) \<noteq> TrimSpace (Content a)"
    by (auto simp: modified_def split: option.splits)
  from indexByID_Some [OF a(3)] have "a \<in> set sa" "ID a = i" by simp_all
  moreover have "\<forall>p \<in> set lf. isNewFile u fs sa p \<longrightarrow>
             (\<forall>md. decode u fs p = Some md \<longrightarrow> fmID (mdFrontmatter md) \<noteq> i)"
    using a(1,3) by (auto simp: isNewFile_def)
  ultimately show ?thesis using a by blast
qed

lemma pushAllChanges_events:
  assumes l: "ListArticles cfg reply = Inr sa"
  shows "(filter (isNewFile u fs sa) lf \<noteq> [] \<longrightarrow>
            Print (SkippedNewArticles (filter (isNewFile u fs sa) lf)) \<in>
              set (fst (pushAllChanges u fs (Inr lf) cfg reply ksLocal ksServer uni stdin update)))"
    and "Print (SkippedNewArticles ns) \<in>
              set (fst (pushAllChanges u fs (Inr lf) cfg reply ksLocal ksServer uni stdin update)) \<longrightarrow>
            ns = filter (isNewFile u fs sa) lf"
    and "(Print (PageDeletedLocally t w) \<in>
              set (fst (pushAllChanges u fs (Inr lf) cfg reply ksLocal ksServer uni stdin update))) =
           (accepted uni stdin \<and>
            (filter (modified u fs lf sa) ksLocal \<noteq> [] \<or> filter (isNewFile u fs sa) lf \<noteq> []) \<and>
            (\<exists>k \<in> set ksServer. \<exists>a. indexByID sa k = Some a \<and> (k = [] \<or> carrying u fs lf k = []) \<and>
                t = Title a \<and> w = URL a))"
  by (auto simp: pushAllChanges_run [OF l] accepted_def skipped_planOf skipped_updateEvents
      skipped_deletionWarnings deleted_planOf deleted_updateEvents deleted_deletionWarnings
      split: option.splits)

lemma pushAllChanges_only_updates:
  "\<forall>call \<in> set (remoteCallsOf (fst (pushAllChanges unmarshal fs found cfg reply
                                        ksLocal ksServer uni stdin update))).
      call = ListArticlesCall \<or>
      (\<exists>localFiles serverArticles i a.
         found = Inr localFiles \<and> ListArticles cfg reply = Inr serverArticles \<and>
         call = UpdateArticleCall i
                  (fmTitle (mdFrontmatter (last (carrying unmarshal fs localFiles i))))
                  (mdContent (last (carrying unmarshal fs localFiles i))) \<and>
         i \<noteq> [] \<and> carrying unmarshal fs localFiles i \<noteq> [] \<and>
         indexByID serverArticles i = Some a \<and> a \<in> set serverArticles \<and> ID a = i \<and>
         TrimSpace (mdContent (last (carrying unmarshal fs localFiles i))) \<noteq> TrimSpace (Content a) \<and>
         (\<forall>p \<in> set localFiles. isNewFile unmarshal fs serverArticles p \<longrightarrow>
            (\<forall>md. decode unmarshal fs p = Some md \<longrightarrow> fmID (mdFrontmatter md) \<noteq> i)))"
proof (cases found)
  case (Inl e)
  then show ?thesis by (simp add: pushAllChanges_def)
next
  case found: (Inr lf)
  show ?thesis
  proof (cases "ListArticles cfg reply")
    case (Inl e)
    with found show ?thesis by (simp add: pushAllChanges_def)
  next
    case (Inr sa)
    show ?thesis
    proof
      fix call
      assume "call \<in> set (remoteCallsOf (fst (pushAllChanges unmarshal fs found cfg reply
                                      ksLocal ksServer uni stdin update)))"
      then consider "call = ListArticlesCall"
        | i where "modified unmarshal fs lf sa i" "call = updateOf unmarshal fs lf i"
        unfolding found pushAllChanges_calls [OF Inr] by (auto split: if_splits)
      then show "call = ListArticlesCall \<or>
        (\<exists>localFiles serverArticles i a.
           found = Inr localFiles \<and> ListArticles cfg reply = Inr serverArticles \<and>
           call = UpdateArticleCall i
                (fmTitle (mdFrontmatter (last (carrying unmarshal fs localFiles i))))
                (mdContent (last (carrying unmarshal fs localFiles i))) \<and>
           i \<noteq> [] \<and> carrying unmarshal fs localFiles i \<noteq> [] \<and>
           indexByID serverArticles i = Some a \<and> a \<in> set serverArticles \<and> ID a = i \<and>
           TrimSpace (mdContent (last (carrying unmarshal fs localFiles i))) \<noteq> TrimSpace (Content a) \<and>
           (\<forall>p \<in> set localFiles. isNewFile unmarshal fs serverArticles p \<longrightarrow>
              (\<forall>md. decode unmarshal fs p = Some md \<longrightarrow> fmID (mdFrontmatter md) \<noteq> i)))"
      proof cases
        case 1
        then show ?thesis by simp
      next
        case 2
        from modified_update [OF 2(1)] obtain a where
          "i \<noteq> []" "carrying unmarshal fs lf i \<noteq> []"
          "indexByID sa i = Some a" "a \<in> set sa" "ID a = i"
          "TrimSpace (mdContent (last (carrying unmarshal fs lf i))) \<noteq> TrimSpace (Content a)"
          "\<forall>p \<in> set lf. isNewFile unmarshal fs sa p \<longrightarrow>
             (\<forall>md. decode unmarshal fs p = Some md \<longrightarrow> fmID (mdFrontmatter md) \<noteq> i)"
          by blast
        with 2(2) found Inr show ?thesis
          unfolding updateOf_def by blast
      qed
    qed
  qed
qed

lemma pushAllChanges_warnings:
  assumes l: "ListArticles cfg reply = Inr sa"
    and e: "events = fst (pushAllChanges u fs (Inr lf) cfg reply ksLocal ksServer uni stdin update)"
    and n: "new = filter (isNewFile u fs sa) lf"
    and c: "confirmed = (accepted uni stdin \<and> (filter (modified u fs lf sa) ksLocal \<noteq> [] \<or> new \<noteq> []))"
  shows "(new \<noteq> [] \<longrightarrow> Print (SkippedNewArticles new) \<in> set events) \<and>
        (\<forall>ns. Print (SkippedNewArticles ns) \<in> set events \<longrightarrow> ns = new) \<and>
        (confirmed \<longrightarrow>
           (\<forall>k \<in> set ksServer. \<forall>a.
              indexByID sa k = Some a \<and> (k = [] \<or> carrying u fs lf k = []) \<longrightarrow>
              Print (PageDeletedLocally (Title a) (URL a)) \<in> set events)) \<and>
        (\<not> confirmed \<longrightarrow> (\<forall>t w. Print (PageDeletedLocally t w) \<notin> set events)) \<and>
        (\<forall>t w. Print (PageDeletedLocally t w) \<in> set events \<longrightarrow>
           (\<exists>a \<in> set sa. t = Title a \<and> w = URL a \<and> (ID a = [] \<or> carrying u fs lf (ID a) = [])))"
proof (intro conjI impI allI ballI)
  note ev = pushAllChanges_events [OF l, where u = u and fs = fs and lf = lf
        and ksLocal = ksLocal and ksServer = ksServer and uni = uni and stdin = stdin and update = update]
  note del = ev(3) [folded e n, folded c]
  {
    assume "new \<noteq> []"
    with ev(1) show "Print (SkippedNewArticles new) \<in> set events"
      unfolding e n by simp
  next
    fix ns assume "Print (SkippedNewArticles ns) \<in> set events"
    with ev(2) [of ns] show "ns = new"
      unfolding e n by simp
  next
    fix k a
    assume "confirmed" "k \<in> set ksServer"
      "indexByID sa k = Some a \<and> (k = [] \<or> carrying u fs lf k = [])"
    then show "Print (PageDeletedLocally (Title a) (URL a)) \<in> set events"
      unfolding del c by blast
  next
    fix t w
    assume "\<not> confirmed"
    then show "Print (PageDeletedLocally t w) \<notin> set events"
      unfolding del c by blast
  next
    fix t w
    assume "Print (PageDeletedLocally t w) \<in> set events"
    then obtain k a where ka: "indexByID sa k = Some a" "k = [] \<or> carrying u fs lf k = []"
      "t = Title a" "w = URL a"
      unfolding del by blast
    from indexByID_Some [OF ka(1)] have "a \<in> set sa" "ID a = k" by simp_all
    with ka show "\<exists>a \<in> set sa. t = Title a \<and> w = URL a \<and> (ID a = [] \<or> carrying u fs lf (ID a) = [])"
      by blast
  }
qed

text \<open>
  C5, as amended. Whatever the search for files and the service return, a bulk push
  calls nothing on the client but \<open>ListArticles\<close> and \<open>UpdateArticle\<close>; an update is for
  a non-empty identifier that a decoded local file carries and that is on the server,
  with the title and content of (the last of) these files, whose trimmed content differs
  from the trimmed content on the server, and no new file (one with no identifier, or
  with one that the server does not have) carries that identifier. When there are new
  files the skipped warning is printed, with exactly these files. When the push is
  confirmed (there is something in the plan and the answer is a yes), a warning with the
  title and the URL of the article is printed for every visited identifier of the server
  that no decoded local file carries; otherwise no such warning is printed. No event
  deletes or creates anything.
\<close>

theorem C5_only_updates:
  "(\<forall>call \<in> set (remoteCallsOf (fst (pushAllChanges unmarshal fs found cfg reply
                                        ksLocal ksServer uni stdin update))).
      call = ListArticlesCall \<or>
      (\<exists>localFiles serverArticles i a.
         found = Inr localFiles \<and> ListArticles cfg reply = Inr serverArticles \<and>
         call = UpdateArticleCall i
                  (fmTitle (mdFrontmatter (last (carrying unmarshal fs localFiles i))))
                  (mdContent (last (carrying unmarshal fs localFiles i))) \<and>
         i \<noteq> [] \<and> carrying unmarshal fs localFiles i \<noteq> [] \<and>
         indexByID serverArticles i = Some a \<and> a \<in> set serverArticles \<and> ID a = i \<and>
         TrimSpace (mdContent (last (carrying unmarshal fs localFiles i))) \<noteq> TrimSpace (Content a) \<and>
         (\<forall>p \<in> set localFiles. isNewFile unmarshal fs serverArticles p \<longrightarrow>
            (\<forall>md. decode unmarshal fs p = Some md \<longrightarrow> fmID (mdFrontmatter md) \<noteq> i))))
   \<and> (found = Inr localFiles \<and> ListArticles cfg reply = Inr serverArticles \<and>
      events = fst (pushAllChanges unmarshal fs found cfg reply ksLocal ksServer uni stdin update) \<and>
      new = filter (isNewFile unmarshal fs serverArticles) localFiles \<and>
      confirmed = (accepted uni stdin \<and>
                   (filter (modified unmarshal fs localFiles serverArticles) ksLocal \<noteq> [] \<or> new \<noteq> []))
      \<longrightarrow>
        (new \<noteq> [] \<longrightarrow> Print (SkippedNewArticles new) \<in> set events) \<and>
        (\<forall>ns. Print (SkippedNewArticles ns) \<in> set events \<longrightarrow> ns = new) \<and>
        (confirmed \<longrightarrow>
           (\<forall>k \<in> set ksServer. \<forall>a.
              indexByID serverArticles k = Some a \<and> (k = [] \<or> carrying unmarshal fs localFiles k = []) \<longrightarrow>
              Print (PageDeletedLocally (Title a) (URL a)) \<in> set events)) \<and>
        (\<not> confirmed \<longrightarrow> (\<forall>t w. Print (PageDeletedLocally t w) \<notin> set events)) \<and>
        (\<forall>t w. Print (PageDeletedLocally t w) \<in> set events \<longrightarrow>
           (\<exists>a \<in> set serverArticles. t = Title a \<and> w = URL a \<and>
              (ID a = [] \<or> carrying unmarshal fs localFiles (ID a) = []))))"
proof (rule conjI)
  show "\<forall>call \<in> set (remoteCallsOf (fst (pushAllChanges unmarshal fs found cfg reply
                                        ksLocal ksServer uni stdin update))).
      call = ListArticlesCall \<or>
      (\<exists>localFiles serverArticles i a.
         found = Inr localFiles \<and> ListArticles cfg reply = Inr serverArticles \<and>
         call = UpdateArticleCall i
                  (fmTitle (mdFrontmatter (last (carrying unmarshal fs localFiles i))))
                  (mdContent (last (carrying unmarshal fs localFiles i))) \<and>
         i \<noteq> [] \<and> carrying unmarshal fs localFiles i \<noteq> [] \<and>
         indexByID serverArticles i = Some a \<and> a \<in> set serverArticles \<and> ID a = i \<and>
         TrimSpace (mdContent (last (carrying unmarshal fs localFiles i))) \<noteq> TrimSpace (Content a) \<and>
         (\<forall>p \<in> set localFiles. isNewFile unmarshal fs serverArticles p \<longrightarrow>
            (\<forall>md. decode unmarshal fs p = Some md \<longrightarrow> fmID (mdFrontmatter md) \<noteq> i)))"
    by (rule pushAllChanges_only_updates)
next
  show "found = Inr localFiles \<and> ListArticles cfg reply = Inr serverArticles \<and>
      events = fst (pushAllChanges unmarshal fs found cfg reply ksLocal ksServer uni stdin update) \<and>
      new = filter (isNewFile unmarshal fs serverArticles) localFiles \<and>
      confirmed = (accepted uni stdin \<and>
                   (filter (modified unmarshal fs localFiles serverArticles) ksLocal \<noteq> [] \<or> new \<noteq> []))
      \<longrightarrow>
        (new \<noteq> [] \<longrightarrow> Print (SkippedNewArticles new) \<in> set events) \<and>
        (\<forall>ns. Print (SkippedNewArticles ns) \<in> set events \<longrightarrow> ns = new) \<and>
        (confirmed \<longrightarrow>
           (\<forall>k \<in> set ksServer. \<forall>a.
              indexByID serverArticles k = Some a \<and> (k = [] \<or> carrying unmarshal fs localFiles k = []) \<longrightarrow>
              Print (PageDeletedLocally (Title a) (URL a)) \<in> set events)) \<and>
        (\<not> confirmed \<longrightarrow> (\<forall>t w. Print (PageDeletedLocally t w) \<notin> set events)) \<and>
        (\<forall>t w. Print (PageDeletedLocally t w) \<in> set events \<longrightarrow>
           (\<exists>a \<in> set serverArticles. t = Title a \<and> w = URL a \<and>
              (ID a = [] \<or> carrying unmarshal fs localFiles (ID a) = [])))"
  proof (rule impI)
  assume h: "found = Inr localFiles \<and> ListArticles cfg reply = Inr serverArticles \<and>
      events = fst (pushAllChanges unmarshal fs found cfg reply ksLocal ksServer uni stdin update) \<and>
      new = filter (isNewFile unmarshal fs serverArticles) localFiles \<and>
      confirmed = (accepted uni stdin \<and>
                   (filter (modified unmarshal fs localFiles serverArticles) ksLocal \<noteq> [] \<or> new \<noteq> []))"
  from h have f: "found = Inr localFiles" by (elim conjE)
  from h have l: "ListArticles cfg reply = Inr serverArticles" by (elim conjE)
  from h have "events = fst (pushAllChanges unmarshal fs found cfg reply ksLocal ksServer uni stdin update)"
    by (elim conjE)
  then have e: "events = fst (pushAllChanges unmarshal fs (Inr localFiles) cfg reply ksLocal ksServer
                                uni stdin update)"
    unfolding f .
  from h have n: "new = filter (isNewFile unmarshal fs serverArticles) localFiles" by (elim conjE)
  from h have c: "confirmed = (accepted uni stdin \<and>
                   (filter (modified unmarshal fs localFiles serverArticles) ksLocal \<noteq> [] \<or> new \<noteq> []))"
    by (elim conjE)
  from l e n c
  show "(new \<noteq> [] \<longrightarrow> Print (SkippedNewArticles new) \<in> set events) \<and>
        (\<forall>ns. Print (SkippedNewArticles ns) \<in> set events \<longrightarrow> ns = new) \<and>
        (confirmed \<longrightarrow>
           (\<forall>k \<in> set ksServer. \<forall>a.
              indexByID serverArticles k = Some a \<and> (k = [] \<or> carrying unmarshal fs localFiles k = []) \<longrightarrow>
              Print (PageDeletedLocally (Title a) (URL a)) \<in> set events)) \<and>
        (\<not> confirmed \<longrightarrow> (\<forall>t w. Print (PageDeletedLocally t w) \<notin> set events)) \<and>
        (\<forall>t w. Print (PageDeletedLocally t w) \<in> set events \<longrightarrow>
           (\<exists>a \<in> set serverArticles. t = Title a \<and> w = URL a \<and>
              (ID a = [] \<or> carrying unmarshal fs localFiles (ID a) = [])))"
    by (rule pushAllChanges_warnings)
  qed
qed

text \<open>
  C5 as stated fails: B and C have no local file and A is unchanged; the push prints that
  there are no changes and no warning about B or C. With B edited and the answer \<open>n\<close> the
  push is cancelled, again with no warning about C.
\<close>

theorem C5_deleted_not_reported:
  "pushAllChanges plainUnmarshal exampleFiles (Inr [''A.md'']) ytConfig
      (served [articleA, articleB, articleC]) [''A-1''] [''A-3'', ''A-1'', ''A-2''] (\<lambda>s. s)
      (''y'' @ [CHR 0x0A]) noFailure = ([Remote ListArticlesCall, Print NoChangesToPush], None)
   \<and> ListArticles ytConfig (served [articleA, articleB, articleC]) = Inr [articleA, articleB, articleC]
   \<and> carrying plainUnmarshal exampleFiles [''A.md''] (ID articleB) = []
   \<and> carrying plainUnmarshal exampleFiles [''A.md''] (ID articleC) = []
   \<and> pushAllChanges plainUnmarshal exampleFiles (Inr [''A.md'', ''A/B.md'']) ytConfig
      (served [articleA, articleB, articleC]) [''A-2'', ''A-1''] [''A-3'', ''A-1'', ''A-2''] (\<lambda>s. s)
      (''n'' @ [CHR 0x0A]) noFailure =
       ([Remote ListArticlesCall, Print PagesToBePushed, Print (PageLine 1 ''B'' ''A/B.md''),
         Print ProceedWithPush, ReadLine, Print PushCancelled], None)
   \<and> carrying plainUnmarshal exampleFiles [''A.md'', ''A/B.md''] (ID articleC) = []"
  by code_simp

theorem C5_only_updates_witness:
  "ListArticles ytConfig (served [articleA, articleB, articleC]) = Inr [articleA, articleB, articleC]
   \<and> remoteCallsOf (fst (pushAllChanges plainUnmarshal exampleFiles
        (Inr [''A.md'', ''A/B.md'', ''A/Draft.md'']) ytConfig (served [articleA, articleB, articleC])
        [''A-2'', ''A-1''] [''A-3'', ''A-1'', ''A-2''] (\<lambda>s. s) (''Yes'' @ [CHR 0x0A]) noFailure)) =
       [ListArticlesCall, UpdateArticleCall ''A-2'' ''B'' ''z'']
   \<and> filter (isNewFile plainUnmarshal exampleFiles [articleA, articleB, articleC])
        [''A.md'', ''A/B.md'', ''A/Draft.md''] = [''A/Draft.md'']
   \<and> Print (SkippedNewArticles [''A/Draft.md'']) \<in> set (fst (pushAllChanges plainUnmarshal exampleFiles
        (Inr [''A.md'', ''A/B.md'', ''A/Draft.md'']) ytConfig (served [articleA, articleB, articleC])
        [''A-2'', ''A-1''] [''A-3'', ''A-1'', ''A-2''] (\<lambda>s. s) (''Yes'' @ [CHR 0x0A]) noFailure))
   \<and> accepted (\<lambda>s. s) (''Yes'' @ [CHR 0x0A])
   \<and> indexByID [articleA, articleB, articleC] ''A-3'' = Some articleC
   \<and> carrying plainUnmarshal exampleFiles [''A.md'', ''A/B.md'', ''A/Draft.md''] ''A-3'' = []
   \<and> Print (PageDeletedLocally ''C'' ''https://yt/articles/A-3'') \<in> set (fst (pushAllChanges
        plainUnmarshal exampleFiles
        (Inr [''A.md'', ''A/B.md'', ''A/Draft.md'']) ytConfig (served [articleA, articleB, articleC])
        [''A-2'', ''A-1''] [''A-3'', ''A-1'', ''A-2''] (\<lambda>s. s) (''Yes'' @ [CHR 0x0A]) noFailure))"
proof -
  let ?files = "[''A.md'', ''A/B.md'', ''A/Draft.md'']"
  let ?run = "pushAllChanges plainUnmarshal exampleFiles (Inr ?files) ytConfig
      (served [articleA, articleB, articleC]) [''A-2'', ''A-1''] [''A-3'', ''A-1'', ''A-2''] (\<lambda>s. s)
      (''Yes'' @ [CHR 0x0A]) noFailure"
  have l: "ListArticles ytConfig (served [articleA, articleB, articleC]) = Inr [articleA, articleB, articleC]"
    by code_simp
  have calls: "remoteCallsOf (fst ?run) = [ListArticlesCall, UpdateArticleCall ''A-2'' ''B'' ''z'']"
    by code_simp
  have n: "filter (isNewFile plainUnmarshal exampleFiles [articleA, articleB, articleC]) ?files =
             [''A/Draft.md'']"
    by code_simp
  have acc: "accepted (\<lambda>s. s) (''Yes'' @ [CHR 0x0A])"
    by code_simp
  have ic: "indexByID [articleA, articleB, articleC] ''A-3'' = Some articleC"
    by (simp add: indexByID_def articleA_def articleB_def articleC_def)
  have cc: "carrying plainUnmarshal exampleFiles ?files ''A-3'' = []"
    by code_simp
  have tu: "Title articleC = ''C''" "URL articleC = ''https://yt/articles/A-3''"
    by (simp_all add: articleC_def)
  from C5_only_updates [where unmarshal = plainUnmarshal and fs = exampleFiles and found = "Inr ?files"
      and cfg = ytConfig and reply = "served [articleA, articleB, articleC]"
      and ksLocal = "[''A-2'', ''A-1'']" and ksServer = "[''A-3'', ''A-1'', ''A-2'']"
      and uni = "\<lambda>s. s" and stdin = "''Yes'' @ [CHR 0x0A]" and update = noFailure
      and localFiles = ?files and serverArticles = "[articleA, articleB, articleC]"
      and events = "fst ?run" and new = "[''A/Draft.md'']" and confirmed = True] l n acc
  have "Print (SkippedNewArticles [''A/Draft.md'']) \<in> set (fst ?run)"
    and "\<forall>k \<in> set [''A-3'', ''A-1'', ''A-2'']. \<forall>a.
              indexByID [articleA, articleB, articleC] k = Some a \<and>
              (k = [] \<or> carrying plainUnmarshal exampleFiles ?files k = []) \<longrightarrow>
              Print (PageDeletedLocally (Title a) (URL a)) \<in> set (fst ?run)"
    by simp_all
  with ic cc tu have "Print (SkippedNewArticles [''A/Draft.md'']) \<in> set (fst ?run)"
    and "Print (PageDeletedLocally ''C'' ''https://yt/articles/A-3'') \<in> set (fst ?run)"
    by auto
  with l calls n acc ic cc show ?thesis
    by simp
qed

subsection \<open>Sorting\<close>

lemma mset_sink: "mset (sink lessFn x ys) = add_mset x (mset ys)"
  by (induction ys) auto

lemma set_sink: "set (sink lessFn x ys) = insert x (set ys)"
  by (induction ys) auto

lemma mset_foldl_sink:
  "mset (foldl (\<lambda>before x. sink lessFn x before) acc xs) = mset acc + mset xs"
  by (induction xs arbitrary: acc) (auto simp: mset_sink)

lemma mset_insertionSort: "mset (insertionSort lessFn xs) = mset xs"
  by (simp add: insertionSort_def mset_foldl_sink)

lemma mset_sortSlice: "rearranges shuffle \<Longrightarrow> mset (sortSlice shuffle lessFn xs) = mset xs"
  by (simp add: sortSlice_def mset_insertionSort rearranges_def)

lemma set_sortSlice: "rearranges shuffle \<Longrightarrow> set (sortSlice shuffle lessFn xs) = set xs"
  using mset_sortSlice [of shuffle lessFn xs] by (auto dest: mset_eq_setD)

text \<open>
  With the comparison of a key by \<open><\<close>, the insertion keeps the elements before it in
  order, whatever the slice was: the result of \<open>sort.Slice\<close> is in non-decreasing key.
\<close>

lemma sorted_sink:
  fixes f :: "'a \<Rightarrow> 'b::linorder"
  shows "sorted (rev (map f ys)) \<Longrightarrow> sorted (rev (map f (sink (\<lambda>a b. f a < f b) x ys)))"
proof (induction ys)
  case Nil
  then show ?case by simp
next
  case (Cons y ys)
  then show ?case
    by (auto simp: sorted_append set_sink)
qed

lemma sorted_foldl_sink:
  fixes f :: "'a \<Rightarrow> 'b::linorder"
  shows "sorted (rev (map f acc)) \<Longrightarrow>
         sorted (rev (map f (foldl (\<lambda>before x. sink (\<lambda>a b. f a < f b) x before) acc xs)))"
  by (induction xs arbitrary: acc) (simp_all add: sorted_sink)

lemma sorted_insertionSort:
  fixes f :: "'a \<Rightarrow> 'b::linorder"
  shows "sorted (map f (insertionSort (\<lambda>a b. f a < f b) xs))"
  using sorted_foldl_sink [of f "[]" xs] by (simp add: insertionSort_def rev_map)

lemma sorted_sortSlice:
  fixes f :: "'a \<Rightarrow> 'b::linorder"
  shows "sorted (map f (sortSlice shuffle (\<lambda>a b. f a < f b) xs))"
  by (simp add: sortSlice_def sorted_insertionSort)

lemma rearranges_id: "rearranges (\<lambda>xs. xs)"
  by (simp add: rearranges_def)

subsection \<open>The tree builder\<close>

lemma indexByID_map_of: "indexByID as = map_of (rev (map (\<lambda>a. (ID a, a)) as))"
  by (induction as rule: rev_induct) (simp_all add: indexByID_def)

lemma indexByID_distinct:
  "distinct (map ID as) \<Longrightarrow> (indexByID as i = Some a) = (a \<in> set as \<and> ID a = i)"
proof -
  assume d: "distinct (map ID as)"
  have "map fst (rev (map (\<lambda>a. (ID a, a)) as)) = rev (map ID as)"
    by (simp add: rev_map comp_def)
  with d have "distinct (map fst (rev (map (\<lambda>a. (ID a, a)) as)))"
    by simp
  from map_of_eq_Some_iff [OF this] show ?thesis
    by (auto simp: indexByID_map_of)
qed

lemma dom_indexByID: "dom (indexByID as) = ID ` set as"
  by (simp add: indexByID_map_of dom_map_of_conv_image_fst image_image)

lemma map_filter_total:
  "\<forall>k\<in>set ks. \<exists>a. m k = Some a \<Longrightarrow> List.map_filter m ks = map (\<lambda>k. the (m k)) ks"
  by (induction ks) auto

text \<open>The values of the map, in the order of a visit of its keys: the articles, in some order.\<close>

lemma mset_map_filter_indexByID:
  assumes d: "distinct (map ID as)" and v: "visitsKeys ks (indexByID as)"
  shows "mset (List.map_filter (indexByID as) ks) = mset as"
proof -
  let ?m = "indexByID as"
  from v have dk: "distinct ks" and sk: "set ks = ID ` set as"
    by (simp_all add: visitsKeys_def dom_indexByID)
  have val: "\<And>k. k \<in> set ks \<Longrightarrow> \<exists>a. ?m k = Some a \<and> a \<in> set as \<and> ID a = k"
    using sk indexByID_distinct [OF d] by auto
  have "\<forall>k\<in>set ks. \<exists>a. ?m k = Some a"
    using val by blast
  then have eq: "List.map_filter ?m ks = map (\<lambda>k. the (?m k)) ks"
    by (rule map_filter_total)
  have inj: "inj_on (\<lambda>k. the (?m k)) (set ks)"
  proof (rule inj_onI)
    fix x y assume "x \<in> set ks" "y \<in> set ks" "the (?m x) = the (?m y)"
    with val [of x] val [of y] show "x = y" by auto
  qed
  have dist: "distinct (map (\<lambda>k. the (?m k)) ks)"
    using dk inj by (simp add: distinct_map)
  have sets: "set (map (\<lambda>k. the (?m k)) ks) = set as"
  proof
    show "set (map (\<lambda>k. the (?m k)) ks) \<subseteq> set as"
      using val by fastforce
    show "set as \<subseteq> set (map (\<lambda>k. the (?m k)) ks)"
    proof
      fix a assume a: "a \<in> set as"
      then have "ID a \<in> set ks" using sk by auto
      moreover from a have "?m (ID a) = Some a" using indexByID_distinct [OF d] by simp
      ultimately show "a \<in> set (map (\<lambda>k. the (?m k)) ks)" by force
    qed
  qed
  from d have "distinct as" by (simp add: distinct_map)
  with dist sets have "mset (map (\<lambda>k. the (?m k)) ks) = mset as"
    using set_eq_iff_mset_eq_distinct by blast
  with eq show ?thesis by simp
qed

lemma mset_findChildren:
  assumes "distinct (map ID as)" "visitsKeys ks (indexByID as)" "rearranges shuffle"
  shows "mset (findChildren ks shuffle (indexByID as) a) =
         mset (filter (\<lambda>c. ParentID c = Some (ID a)) as)"
  using assms mset_map_filter_indexByID [OF assms(1,2)]
  by (simp add: findChildren_def mset_sortSlice)

lemma sorted_findChildren: "sorted (map Order (findChildren ks shuffle m a))"
  by (simp add: findChildren_def sorted_sortSlice)

lemma ID_inj:
  "distinct (map ID as) \<Longrightarrow> a \<in> set as \<Longrightarrow> b \<in> set as \<Longrightarrow> ID a = ID b \<Longrightarrow> a = b"
  by (meson distinct_map inj_onD)

lemma pathTo_in: "pathTo as a ps \<Longrightarrow> a \<in> set as \<and> (\<exists>qs. ps = ID a # qs)"
  by (induction rule: pathTo.induct) auto

lemma pathTo_unique:
  assumes u: "uniqueIDs as"
  shows "pathTo as a ps \<Longrightarrow> pathTo as a qs \<Longrightarrow> ps = qs"
proof (induction arbitrary: qs rule: pathTo.induct)
  case (root a)
  from root.prems show ?case
  proof (cases rule: pathTo.cases)
    case root
    then show ?thesis by simp
  next
    case (step p ps')
    from step have "p \<in> set as" using pathTo_in by blast
    with u have "ID p \<noteq> []" by (simp add: uniqueIDs_def)
    with step root.hyps show ?thesis by (auto simp: isRoot_def)
  qed
next
  case (step p ps c)
  from step.prems show ?case
  proof (cases rule: pathTo.cases)
    case root
    from step.hyps have "p \<in> set as" using pathTo_in by blast
    with u have "ID p \<noteq> []" by (simp add: uniqueIDs_def)
    with root step.hyps show ?thesis by (auto simp: isRoot_def)
  next
    case (step p' ps')
    from step \<open>ParentID c = Some (ID p)\<close> have "ID p' = ID p" by simp
    moreover have "p \<in> set as" "p' \<in> set as"
      using step.hyps(1) step(2) pathTo_in by blast+
    ultimately have "p' = p" using u ID_inj by (auto simp: uniqueIDs_def)
    with step have "pathTo as p ps'" by simp
    from step.IH [OF this] step show ?thesis by simp
  qed
qed

lemma pathTo_suffix:
  "pathTo as a ps \<Longrightarrow> suffix qs ps \<Longrightarrow> qs \<noteq> [] \<Longrightarrow> \<exists>x. pathTo as x qs"
proof (induction arbitrary: qs rule: pathTo.induct)
  case (root a)
  then have "qs = [ID a]" by (auto simp: suffix_Cons)
  with root.hyps show ?case by (auto intro: pathTo.root)
next
  case (step p ps c)
  from step.prems(1) consider "qs = ID c # ps" | "suffix qs ps"
    by (auto simp: suffix_Cons)
  then show ?case
  proof cases
    case 1
    with step.hyps show ?thesis by (auto intro: pathTo.step)
  next
    case 2
    with step.IH step.prems(2) show ?thesis by blast
  qed
qed

lemma pathTo_distinct:
  assumes u: "uniqueIDs as"
  shows "pathTo as a ps \<Longrightarrow> distinct ps \<and> set ps \<subseteq> ID ` set as"
proof (induction rule: pathTo.induct)
  case (root a)
  then show ?case by simp
next
  case (step p ps c)
  have "ID c \<notin> set ps"
  proof
    assume "ID c \<in> set ps"
    then obtain us vs where ps: "ps = us @ ID c # vs"
      by (auto simp: in_set_conv_decomp)
    then have "suffix (ID c # vs) ps" by (simp add: suffix_def)
    with pathTo_suffix [OF step.hyps(1)] obtain x where x: "pathTo as x (ID c # vs)"
      by blast
    then have "x \<in> set as" "ID x = ID c" using pathTo_in by fastforce+
    with step.hyps(2) u have "x = c" using ID_inj by (auto simp: uniqueIDs_def)
    with x have "pathTo as c (ID c # vs)" by simp
    moreover have "pathTo as c (ID c # ps)" using step.hyps by (auto intro: pathTo.step)
    ultimately have "ID c # vs = ID c # ps" using pathTo_unique [OF u] by blast
    with ps show False by simp
  qed
  with step show ?case by auto
qed

lemma pathTo_length:
  assumes u: "uniqueIDs as" and p: "pathTo as a ps"
  shows "length ps \<le> length as"
proof -
  from pathTo_distinct [OF u p] have d: "distinct ps" and s: "set ps \<subseteq> ID ` set as"
    by simp_all
  from d have "length ps = card (set ps)" by (simp add: distinct_card)
  also from s have "\<dots> \<le> card (ID ` set as)" by (simp add: card_mono)
  also have "\<dots> \<le> card (set as)" by (simp add: card_image_le)
  also have "\<dots> \<le> length as" by (rule card_length)
  finally show ?thesis .
qed

lemma those_map_Some:
  "\<forall>x\<in>set xs. \<exists>y. f x = Some y \<Longrightarrow> those (map f xs) = Some (map (\<lambda>x. the (f x)) xs)"
  by (induction xs) auto

lemma those_map_eq_Some:
  "those (map f xs) = Some ys \<Longrightarrow> ys = map (\<lambda>x. the (f x)) xs \<and> (\<forall>x\<in>set xs. \<exists>y. f x = Some y)"
  by (induction xs arbitrary: ys) (auto split: option.splits)

lemma distinct_concat_map:
  "distinct xs \<Longrightarrow> (\<And>x. x \<in> set xs \<Longrightarrow> distinct (f x)) \<Longrightarrow>
   (\<And>x y. x \<in> set xs \<Longrightarrow> y \<in> set xs \<Longrightarrow> x \<noteq> y \<Longrightarrow> set (f x) \<inter> set (f y) = {}) \<Longrightarrow>
   distinct (concat (map f xs))"
  by (induction xs) auto

lemma suffix_same_length: "suffix a q \<Longrightarrow> suffix b q \<Longrightarrow> length a = length b \<Longrightarrow> a = b"
  by (auto simp: suffix_def)

lemma buildTreeNode_Suc:
  assumes "buildTreeNode (Suc n) rng shuffle m sm a = Some t"
  shows "nID t = ID a"
    and "nChildren t = map (\<lambda>c. the (buildTreeNode n rng shuffle m sm c)) (findChildren (rng (ID a)) shuffle m a)"
    and "\<forall>c \<in> set (findChildren (rng (ID a)) shuffle m a). \<exists>y. buildTreeNode n rng shuffle m sm c = Some y"
  using assms those_map_eq_Some [of "buildTreeNode n rng shuffle m sm" "findChildren (rng (ID a)) shuffle m a"]
  by (auto split: option.splits)

lemma buildTreeNode_nID: "buildTreeNode n rng shuffle m sm a = Some t \<Longrightarrow> nID t = ID a"
proof (cases n)
  case 0
  assume "buildTreeNode n rng shuffle m sm a = Some t"
  with 0 show ?thesis by simp
next
  case (Suc k)
  assume "buildTreeNode n rng shuffle m sm a = Some t"
  with Suc show ?thesis using buildTreeNode_Suc(1) by blast
qed

lemma subnodes_unfold: "subnodes t = t # concat (map subnodes (nChildren t))"
  by (cases t) simp

lemma set_findChildren:
  assumes "uniqueIDs as" "visitsKeys ks (indexByID as)" "rearranges shuffle"
  shows "set (findChildren ks shuffle (indexByID as) a) = {c \<in> set as. ParentID c = Some (ID a)}"
    and "distinct (findChildren ks shuffle (indexByID as) a)"
proof -
  from assms have m: "mset (findChildren ks shuffle (indexByID as) a) =
         mset (filter (\<lambda>c. ParentID c = Some (ID a)) as)"
    by (simp add: mset_findChildren uniqueIDs_def)
  from mset_eq_setD [OF m] show "set (findChildren ks shuffle (indexByID as) a) = {c \<in> set as. ParentID c = Some (ID a)}"
    by auto
  from assms(1) have "distinct as" by (simp add: uniqueIDs_def distinct_map)
  then have "distinct (filter (\<lambda>c. ParentID c = Some (ID a)) as)" by simp
  with m show "distinct (findChildren ks shuffle (indexByID as) a)"
    by (metis mset_eq_imp_distinct_iff)
qed

text \<open>Every node of the tree built for an article stands for an article below it.\<close>

lemma buildTreeNode_nodes:
  assumes u: "uniqueIDs as" and v: "\<forall>i. visitsKeys (rng i) (indexByID as)" and s: "rearranges shuffle"
  shows "pathTo as a ps \<Longrightarrow> buildTreeNode n rng shuffle (indexByID as) sm a = Some t \<Longrightarrow>
         node \<in> set (subnodes t) \<Longrightarrow>
         \<exists>x qs. pathTo as x qs \<and> suffix ps qs \<and> ID x = nID node \<and>
                map nID (nChildren node) = map ID (findChildren (rng (ID x)) shuffle (indexByID as) x)"
proof (induction n arbitrary: a ps t)
  case 0
  then show ?case by simp
next
  case (Suc n)
  let ?cs = "findChildren (rng (ID a)) shuffle (indexByID as) a"
  let ?B = "buildTreeNode n rng shuffle (indexByID as) sm"
  note b = buildTreeNode_Suc [OF Suc.prems(2)]
  from Suc.prems(3) consider "node = t" | c where "c \<in> set ?cs" "node \<in> set (subnodes (the (?B c)))"
    using b(2) by (subst (asm) subnodes_unfold) auto
  then show ?case
  proof cases
    case 1
    have "\<forall>c\<in>set ?cs. nID (the (?B c)) = ID c"
    proof
      fix c assume "c \<in> set ?cs"
      with b(3) obtain y where "?B c = Some y" by blast
      then show "nID (the (?B c)) = ID c" using buildTreeNode_nID by fastforce
    qed
    with b(2) have "map nID (nChildren t) = map ID ?cs"
      by simp
    with 1 b(1) Suc.prems(1) show ?thesis
      by (intro exI [of _ a] exI [of _ ps]) simp
  next
    case 2
    from 2(1) have c: "c \<in> set as" "ParentID c = Some (ID a)"
      using set_findChildren(1) [OF u _ s] v by auto
    then have p: "pathTo as c (ID c # ps)"
      using Suc.prems(1) by (auto intro: pathTo.step)
    from b(3) 2(1) have "?B c = Some (the (?B c))" by auto
    from Suc.IH [OF p this 2(2)] obtain x qs where
      "pathTo as x qs" "suffix (ID c # ps) qs" "ID x = nID node"
      "map nID (nChildren node) = map ID (findChildren (rng (ID x)) shuffle (indexByID as) x)"
      by blast
    then show ?thesis
      by (meson suffix_ConsD)
  qed
qed

lemma within_disjoint:
  assumes u: "uniqueIDs as"
    and 1: "\<forall>i \<in> set xs. \<exists>x qs. pathTo as x qs \<and> suffix (i1 # ps) qs \<and> ID x = i"
    and 2: "\<forall>i \<in> set ys. \<exists>x qs. pathTo as x qs \<and> suffix (i2 # ps) qs \<and> ID x = i"
    and ne: "i1 \<noteq> i2"
  shows "set xs \<inter> set ys = {}"
proof (rule ccontr)
  assume "set xs \<inter> set ys \<noteq> {}"
  then obtain i where "i \<in> set xs" "i \<in> set ys" by auto
  with 1 2 obtain x qs y rs where
    x: "pathTo as x qs" "suffix (i1 # ps) qs" "ID x = i" and
    y: "pathTo as y rs" "suffix (i2 # ps) rs" "ID y = i"
    by blast
  from x(1) y(1) have "x \<in> set as" "y \<in> set as" using pathTo_in by blast+
  with x(3) y(3) u have "x = y" using ID_inj by (auto simp: uniqueIDs_def)
  with x(1) y(1) have "qs = rs" using pathTo_unique [OF u] by blast
  with x(2) y(2) have "i1 # ps = i2 # ps"
    using suffix_same_length [of "i1 # ps" rs "i2 # ps"] by simp
  with ne show False by simp
qed

lemma buildTreeNode_distinct:
  assumes u: "uniqueIDs as" and v: "\<forall>i. visitsKeys (rng i) (indexByID as)" and s: "rearranges shuffle"
  shows "pathTo as a ps \<Longrightarrow> buildTreeNode n rng shuffle (indexByID as) sm a = Some t \<Longrightarrow>
         distinct (nodeIDs t)"
proof (induction n arbitrary: a ps t)
  case 0
  then show ?case by simp
next
  case (Suc n)
  let ?cs = "findChildren (rng (ID a)) shuffle (indexByID as) a"
  let ?B = "buildTreeNode n rng shuffle (indexByID as) sm"
  let ?f = "\<lambda>c. nodeIDs (the (?B c))"
  note b = buildTreeNode_Suc [OF Suc.prems(2)]
  have cs: "\<And>c. c \<in> set ?cs \<Longrightarrow> c \<in> set as \<and> pathTo as c (ID c # ps) \<and> ?B c = Some (the (?B c))"
    using set_findChildren(1) [OF u _ s] v Suc.prems(1) b(3) by (auto intro: pathTo.step)
  have within: "\<And>c. c \<in> set ?cs \<Longrightarrow>
        \<forall>i \<in> set (?f c). \<exists>x qs. pathTo as x qs \<and> suffix (ID c # ps) qs \<and> ID x = i"
  proof -
    fix c assume c: "c \<in> set ?cs"
    show "\<forall>i \<in> set (?f c). \<exists>x qs. pathTo as x qs \<and> suffix (ID c # ps) qs \<and> ID x = i"
    proof
      fix i assume "i \<in> set (?f c)"
      then obtain node where n: "node \<in> set (subnodes (the (?B c)))" "i = nID node"
        by (auto simp: nodeIDs_def)
      from cs [OF c] buildTreeNode_nodes [OF u v s _ _ n(1)] n(2)
      show "\<exists>x qs. pathTo as x qs \<and> suffix (ID c # ps) qs \<and> ID x = i"
        by blast
    qed
  qed
  have ids: "nodeIDs t = ID a # concat (map ?f ?cs)"
    using b(1,2) by (subst nodeIDs_def, subst subnodes_unfold) (simp add: map_concat comp_def nodeIDs_def)
  have notin: "ID a \<notin> set (concat (map ?f ?cs))"
  proof
    assume "ID a \<in> set (concat (map ?f ?cs))"
    then obtain c where c: "c \<in> set ?cs" "ID a \<in> set (?f c)" by auto
    with within obtain x qs where x: "pathTo as x qs" "suffix (ID c # ps) qs" "ID x = ID a"
      by blast
    from x(1) Suc.prems(1) have "x \<in> set as" "a \<in> set as" using pathTo_in by blast+
    with x(3) u have "x = a" using ID_inj by (auto simp: uniqueIDs_def)
    with x(1) Suc.prems(1) have "qs = ps" using pathTo_unique [OF u] by blast
    with x(2) have "suffix (ID c # ps) ps" by simp
    then show False by (auto dest: suffix_length_le)
  qed
  have "distinct (concat (map ?f ?cs))"
  proof (rule distinct_concat_map)
    show "distinct ?cs" using set_findChildren(2) [OF u _ s] v by auto
  next
    fix c assume "c \<in> set ?cs"
    with cs have "pathTo as c (ID c # ps)" "?B c = Some (the (?B c))" by auto
    then show "distinct (?f c)" by (rule Suc.IH)
  next
    fix c d assume cd: "c \<in> set ?cs" "d \<in> set ?cs" "c \<noteq> d"
    with cs have "c \<in> set as" "d \<in> set as" by auto
    with cd(3) u have "ID c \<noteq> ID d" using ID_inj by (auto simp: uniqueIDs_def)
    with within_disjoint [OF u within [OF cd(1)] within [OF cd(2)]]
    show "set (?f c) \<inter> set (?f d) = {}" by simp
  qed
  with ids notin show ?case by simp
qed

lemma buildTreeNode_total:
  assumes u: "uniqueIDs as" and v: "\<forall>i. visitsKeys (rng i) (indexByID as)" and s: "rearranges shuffle"
  shows "pathTo as a ps \<Longrightarrow> length as < n + length ps \<Longrightarrow>
         \<exists>t. buildTreeNode n rng shuffle (indexByID as) sm a = Some t"
proof (induction n arbitrary: a ps)
  case 0
  with pathTo_length [OF u 0(1)] show ?case by simp
next
  case (Suc n)
  let ?cs = "findChildren (rng (ID a)) shuffle (indexByID as) a"
  have "\<forall>c \<in> set ?cs. \<exists>y. buildTreeNode n rng shuffle (indexByID as) sm c = Some y"
  proof
    fix c assume "c \<in> set ?cs"
    then have "c \<in> set as" "ParentID c = Some (ID a)"
      using set_findChildren(1) [OF u _ s] v by auto
    with Suc.prems(1) have "pathTo as c (ID c # ps)" by (auto intro: pathTo.step)
    moreover from Suc.prems(2) have "length as < n + length (ID c # ps)" by simp
    ultimately show "\<exists>y. buildTreeNode n rng shuffle (indexByID as) sm c = Some y"
      by (rule Suc.IH)
  qed
  from those_map_Some [OF this] show ?case by simp
qed

lemma buildTreeNode_children:
  "buildTreeNode n rng shuffle m sm a = Some t \<Longrightarrow> node \<in> set (subnodes t) \<Longrightarrow>
     \<exists>x. map nID (nChildren node) = map ID (findChildren (rng (ID x)) shuffle m x)"
proof (induction n arbitrary: a t)
  case 0
  then show ?case by simp
next
  case (Suc n)
  let ?cs = "findChildren (rng (ID a)) shuffle m a"
  let ?B = "buildTreeNode n rng shuffle m sm"
  note b = buildTreeNode_Suc [OF Suc.prems(1)]
  from Suc.prems(2) consider "node = t" | c where "c \<in> set ?cs" "node \<in> set (subnodes (the (?B c)))"
    using b(2) by (subst (asm) subnodes_unfold) auto
  then show ?case
  proof cases
    case 1
    have "\<forall>c\<in>set ?cs. nID (the (?B c)) = ID c"
    proof
      fix c assume "c \<in> set ?cs"
      with b(3) obtain y where "?B c = Some y" by blast
      then show "nID (the (?B c)) = ID c" using buildTreeNode_nID by fastforce
    qed
    with b(2) 1 have "map nID (nChildren node) = map ID ?cs"
      by simp
    then show ?thesis by blast
  next
    case 2
    from b(3) 2(1) have "?B c = Some (the (?B c))" by auto
    from Suc.IH [OF this 2(2)] show ?thesis .
  qed
qed

lemma findChildren_indexed:
  assumes s: "rearranges shuffle" and c: "c \<in> set (findChildren ks shuffle (indexByID as) a)"
  shows "indexByID as (ID c) = Some c"
proof -
  from s have "set (sortSlice shuffle (\<lambda>a b. Order a < Order b)
                      (filter (\<lambda>child. ParentID child = Some (ID a)) (List.map_filter (indexByID as) ks))) =
      set (filter (\<lambda>child. ParentID child = Some (ID a)) (List.map_filter (indexByID as) ks))"
    by (rule set_sortSlice)
  with c have "c \<in> set (List.map_filter (indexByID as) ks)"
    by (simp add: findChildren_def)
  then obtain k where k: "indexByID as k = Some c"
    by (auto simp: List.map_filter_def)
  from indexByID_Some [OF k] k show ?thesis by simp
qed

lemma forestNodes_built:
  assumes "buildRootNodes n rng shuffle as sm = Some forest" "node \<in> set (forestNodes forest)"
  shows "\<exists>r t. r \<in> set (sortSlice shuffle (\<lambda>a b. Order a < Order b) (filter isRoot as)) \<and>
           buildTreeNode n rng shuffle (indexByID as) sm r = Some t \<and> t \<in> set forest \<and>
           node \<in> set (subnodes t)"
proof -
  let ?B = "buildTreeNode n rng shuffle (indexByID as) sm"
  from those_map_eq_Some [of ?B "sortSlice shuffle (\<lambda>a b. Order a < Order b) (filter isRoot as)" forest] assms(1)
  have f: "forest = map (\<lambda>x. the (?B x)) (sortSlice shuffle (\<lambda>a b. Order a < Order b) (filter isRoot as))"
    and ok: "\<forall>x\<in>set (sortSlice shuffle (\<lambda>a b. Order a < Order b) (filter isRoot as)). \<exists>y. ?B x = Some y"
    by (simp_all add: buildRootNodes_def)
  from assms(2) obtain t where t: "t \<in> set forest" "node \<in> set (subnodes t)"
    by (auto simp: forestNodes_def)
  with f obtain r where "r \<in> set (sortSlice shuffle (\<lambda>a b. Order a < Order b) (filter isRoot as))" "t = the (?B r)" by auto
  with ok t show ?thesis by fastforce
qed

lemma buildRootNodes_total:
  assumes u: "uniqueIDs as" and v: "\<forall>i. visitsKeys (rng i) (indexByID as)" and s: "rearranges shuffle"
  shows "\<exists>forest. buildRootNodes (length as) rng shuffle as sm = Some forest"
proof -
  let ?B = "buildTreeNode (length as) rng shuffle (indexByID as) sm"
  let ?roots = "sortSlice shuffle (\<lambda>a b. Order a < Order b) (filter isRoot as)"
  have "\<forall>r\<in>set ?roots. \<exists>y. ?B r = Some y"
  proof
    fix r assume "r \<in> set ?roots"
    with set_sortSlice [OF s] have "r \<in> set as" "isRoot r" by auto
    then have "pathTo as r [ID r]" by (rule pathTo.root)
    from buildTreeNode_total [OF u v s this, of "length as" sm]
    show "\<exists>y. ?B r = Some y" by simp
  qed
  from those_map_Some [OF this] show ?thesis
    by (simp only: buildRootNodes_def) blast
qed

text \<open>
  C3, as amended. The children that \<open>buildTreeNode\<close> and \<open>downloadArticleRecursive\<close>
  go through (both take them from \<open>findChildren\<close>) are in non-decreasing \<open>Order\<close>,
  whatever the loop over the map and the library do with the slice: the comparison
  handed to \<open>sort.Slice\<close> is by \<open>Order\<close>. So are the children of every node of a forest
  of the diff, and for articles with distinct identifiers there is such a forest, with a
  stack as deep as the list is long. (Nothing is said about children of equal \<open>Order\<close>.)
\<close>

theorem C3_children_sorted:
  "sorted (map Order (findChildren ks shuffle m a))
   \<and> (rearranges shuffle \<and> buildRootNodes depth rng shuffle serverArticles sm = Some forest \<longrightarrow>
        (\<forall>node \<in> set (forestNodes forest).
           sorted (map (orderOf (indexByID serverArticles)) (nChildren node))))
   \<and> (uniqueIDs serverArticles \<and> (\<forall>i. visitsKeys (rng i) (indexByID serverArticles)) \<and>
      rearranges shuffle \<longrightarrow>
        (\<exists>built. buildRootNodes (length serverArticles) rng shuffle serverArticles sm = Some built))"
proof (intro conjI impI ballI)
  show "sorted (map Order (findChildren ks shuffle m a))"
    by (rule sorted_findChildren)
next
  fix node
  assume sb: "rearranges shuffle \<and> buildRootNodes depth rng shuffle serverArticles sm = Some forest"
    and n: "node \<in> set (forestNodes forest)"
  from sb have s: "rearranges shuffle"
    and b: "buildRootNodes depth rng shuffle serverArticles sm = Some forest"
    by simp_all
  let ?m = "indexByID serverArticles"
  from forestNodes_built [OF b n] obtain r t where
    "buildTreeNode depth rng shuffle ?m sm r = Some t" "node \<in> set (subnodes t)"
    by blast
  from buildTreeNode_children [OF this] obtain x where
    x: "map nID (nChildren node) = map ID (findChildren (rng (ID x)) shuffle ?m x)"
    by blast
  let ?cs = "findChildren (rng (ID x)) shuffle ?m x"
  have "map (orderOf ?m) (nChildren node) =
          map (\<lambda>i. case ?m i of None \<Rightarrow> 0 | Some a \<Rightarrow> Order a) (map nID (nChildren node))"
    by (simp add: orderOf_def comp_def)
  also have "\<dots> = map (\<lambda>c. case ?m (ID c) of None \<Rightarrow> 0 | Some a \<Rightarrow> Order a) ?cs"
    by (simp add: x comp_def)
  also have "\<dots> = map Order ?cs"
    using findChildren_indexed [OF s] by (intro map_cong) auto
  finally show "sorted (map (orderOf ?m) (nChildren node))"
    using sorted_findChildren by simp
next
  assume "uniqueIDs serverArticles \<and> (\<forall>i. visitsKeys (rng i) (indexByID serverArticles)) \<and>
      rearranges shuffle"
  then show "\<exists>built. buildRootNodes (length serverArticles) rng shuffle serverArticles sm = Some built"
    using buildRootNodes_total by blast
qed

lemma self_subnode: "t \<in> set (subnodes t)"
  by (subst subnodes_unfold) simp

lemma subnodes_children:
  "node \<in> set (subnodes t) \<Longrightarrow> c \<in> set (nChildren node) \<Longrightarrow> c \<in> set (subnodes t)"
proof (induction t rule: subnodes.induct)
  case (1 i ti st children path)
  from "1.prems"(1) consider "node = ArticleNode i ti st children path"
    | d where "d \<in> set children" "node \<in> set (subnodes d)"
    by auto
  then show ?case
  proof cases
    case 1
    with "1.prems"(2) have "c \<in> set children" by simp
    with self_subnode [of c] show ?thesis by auto
  next
    case 2
    from "1.IH" [OF 2(1) 2(2) "1.prems"(2)] 2(1) show ?thesis by auto
  qed
qed

lemma forestNodes_children:
  assumes "node \<in> set (forestNodes forest)" "c \<in> set (nChildren node)"
  shows "c \<in> set (forestNodes forest)"
proof -
  from assms(1) obtain t where t: "t \<in> set forest" "node \<in> set (subnodes t)"
    by (auto simp: forestNodes_def)
  from subnodes_children [OF t(2) assms(2)] t(1) show ?thesis
    by (auto simp: forestNodes_def)
qed

lemma buildRootNodes_forest:
  assumes u: "uniqueIDs as" and v: "\<forall>i. visitsKeys (rng i) (indexByID as)" and s: "rearranges shuffle"
  shows "\<exists>forest. buildRootNodes (length as) rng shuffle as sm = Some forest \<and>
      distinct (map nID (forestNodes forest)) \<and>
      set (map nID (forestNodes forest)) = {ID a | a ps. pathTo as a ps} \<and>
      mset (map nID forest) = mset (map ID (filter isRoot as)) \<and>
      (\<forall>node \<in> set (forestNodes forest).
         mset (map nID (nChildren node)) =
         mset (map ID (filter (\<lambda>c. ParentID c = Some (nID node)) as)))"
proof -
  let ?m = "indexByID as"
  let ?B = "buildTreeNode (length as) rng shuffle ?m sm"
  let ?T = "\<lambda>r. the (?B r)"
  let ?roots = "sortSlice shuffle (\<lambda>a b. Order a < Order b) (filter isRoot as)"
  let ?forest = "map ?T ?roots"
  from s have mroots: "mset ?roots = mset (filter isRoot as)"
    by (rule mset_sortSlice)
  from mset_eq_setD [OF mroots] have sroots: "set ?roots = {a \<in> set as. isRoot a}"
    by simp
  from u have "distinct (filter isRoot as)" by (simp add: uniqueIDs_def distinct_map)
  with mroots have droots: "distinct ?roots"
    by (metis mset_eq_imp_distinct_iff)
  have rpath: "pathTo as r [ID r]" if "r \<in> set ?roots" for r
    using that sroots by (auto intro: pathTo.root)
  have built: "?B r = Some (?T r)" if "r \<in> set ?roots" for r
  proof -
    from buildTreeNode_total [OF u v s rpath [OF that], of "length as" sm]
    obtain t where "?B r = Some t" by auto
    then show ?thesis by simp
  qed
  have "\<forall>r\<in>set ?roots. \<exists>y. ?B r = Some y"
    using built by blast
  from those_map_Some [OF this]
  have forest: "buildRootNodes (length as) rng shuffle as sm = Some ?forest"
    by (simp only: buildRootNodes_def)
  have nodes: "\<exists>r x qs. r \<in> set ?roots \<and> pathTo as x qs \<and> suffix [ID r] qs \<and> ID x = nID node \<and>
        node \<in> set (subnodes (?T r)) \<and>
        map nID (nChildren node) = map ID (findChildren (rng (ID x)) shuffle ?m x)"
    if "node \<in> set (forestNodes ?forest)" for node
  proof -
    from that obtain r where r: "r \<in> set ?roots" "node \<in> set (subnodes (?T r))"
      by (auto simp: forestNodes_def)
    from buildTreeNode_nodes [OF u v s rpath [OF r(1)] built [OF r(1)] r(2)]
    obtain x qs where "pathTo as x qs" "suffix [ID r] qs" "ID x = nID node"
      "map nID (nChildren node) = map ID (findChildren (rng (ID x)) shuffle ?m x)"
      by blast
    with r show ?thesis by blast
  qed
  have ids: "map nID (forestNodes ?forest) = concat (map (\<lambda>r. nodeIDs (?T r)) ?roots)"
    by (simp add: forestNodes_def map_concat comp_def nodeIDs_def)
  have w: "\<forall>i \<in> set (nodeIDs (?T r)). \<exists>x qs. pathTo as x qs \<and> suffix (ID r # []) qs \<and> ID x = i"
    if r: "r \<in> set ?roots" for r
  proof
    fix i assume "i \<in> set (nodeIDs (?T r))"
    then obtain node where n: "node \<in> set (subnodes (?T r))" "i = nID node"
      by (auto simp: nodeIDs_def)
    from buildTreeNode_nodes [OF u v s rpath [OF r] built [OF r] n(1)] n(2)
    show "\<exists>x qs. pathTo as x qs \<and> suffix (ID r # []) qs \<and> ID x = i" by blast
  qed
  have "distinct (concat (map (\<lambda>r. nodeIDs (?T r)) ?roots))"
  proof (rule distinct_concat_map)
    show "distinct ?roots" by (rule droots)
  next
    fix r assume "r \<in> set ?roots"
    from buildTreeNode_distinct [OF u v s rpath [OF this] built [OF this]]
    show "distinct (nodeIDs (?T r))" .
  next
    fix r r' assume rr: "r \<in> set ?roots" "r' \<in> set ?roots" "r \<noteq> r'"
    from rr sroots have "r \<in> set as" "r' \<in> set as" by auto
    with rr(3) u have "ID r \<noteq> ID r'" using ID_inj by (auto simp: uniqueIDs_def)
    from within_disjoint [OF u w [OF rr(1)] w [OF rr(2)] this]
    show "set (nodeIDs (?T r)) \<inter> set (nodeIDs (?T r')) = {}" .
  qed
  with ids have dist: "distinct (map nID (forestNodes ?forest))"
    by simp
  have sub: "i \<in> {ID a | a ps. pathTo as a ps}" if "i \<in> set (map nID (forestNodes ?forest))" for i
  proof -
    from that obtain node where n: "node \<in> set (forestNodes ?forest)" "i = nID node"
      by auto
    from nodes [OF n(1)] obtain x qs where x: "pathTo as x qs" "ID x = nID node"
      by blast
    with n(2) have "i = ID x" by simp
    with x(1) show ?thesis by blast
  qed
  have sup: "ID a \<in> set (map nID (forestNodes ?forest))" if "pathTo as a ps" for a ps
    using that
  proof (induction rule: pathTo.induct)
    case (root a)
    then have r: "a \<in> set ?roots" using sroots by simp
    then have "?T a \<in> set ?forest" by simp
    with self_subnode [of "?T a"] have "?T a \<in> set (forestNodes ?forest)"
      unfolding forestNodes_def set_concat set_map by blast
    moreover from buildTreeNode_nID [OF built [OF r]] have "nID (?T a) = ID a" .
    ultimately show ?case by (metis image_eqI list.set_map)
  next
    case (step p ps c)
    from step.IH obtain node where n: "node \<in> set (forestNodes ?forest)" "nID node = ID p"
      by auto
    from nodes [OF n(1)] obtain x qs where x: "pathTo as x qs" "ID x = nID node"
      "map nID (nChildren node) = map ID (findChildren (rng (ID x)) shuffle ?m x)"
      by blast
    from x(1) step.hyps(1) have "x \<in> set as" "p \<in> set as" using pathTo_in by blast+
    with x(2) n(2) u have xp: "x = p" using ID_inj by (auto simp: uniqueIDs_def)
    from v have "visitsKeys (rng (ID p)) ?m" by simp
    from set_findChildren(1) [OF u this s, of p] step.hyps
    have "c \<in> set (findChildren (rng (ID p)) shuffle ?m p)" by simp
    then have "ID c \<in> set (map ID (findChildren (rng (ID p)) shuffle ?m p))" by simp
    with x(3) xp have "ID c \<in> set (map nID (nChildren node))" by simp
    then obtain cn where cn: "cn \<in> set (nChildren node)" "nID cn = ID c" by auto
    from forestNodes_children [OF n(1) cn(1)] cn(2) show ?case
      by (metis image_eqI list.set_map)
  qed
  have "map nID ?forest = map ID ?roots"
  proof -
    have "nID (?T r) = ID r" if "r \<in> set ?roots" for r
      using buildTreeNode_nID [OF built [OF that]] .
    then have "map (\<lambda>r. nID (?T r)) ?roots = map ID ?roots"
      by (intro map_cong [OF refl])
    then show ?thesis by (simp only: map_map comp_def)
  qed
  then have "mset (map nID ?forest) = mset (map ID ?roots)"
    by (simp only:)
  also have "\<dots> = image_mset ID (mset ?roots)"
    by (simp only: mset_map)
  also have "\<dots> = mset (map ID (filter isRoot as))"
    by (simp only: mroots mset_map)
  finally have roots: "mset (map nID ?forest) = mset (map ID (filter isRoot as))" .
  have children: "mset (map nID (nChildren node)) =
         mset (map ID (filter (\<lambda>c. ParentID c = Some (nID node)) as))"
    if "node \<in> set (forestNodes ?forest)" for node
  proof -
    from nodes [OF that] obtain x where x: "ID x = nID node"
      "map nID (nChildren node) = map ID (findChildren (rng (ID x)) shuffle ?m x)"
      by blast
    from u have d: "distinct (map ID as)" by (simp add: uniqueIDs_def)
    from v have "visitsKeys (rng (ID x)) ?m" by simp
    from mset_findChildren [OF d this s, of x]
    have "mset (map ID (findChildren (rng (ID x)) shuffle ?m x)) =
          mset (map ID (filter (\<lambda>c. ParentID c = Some (ID x)) as))"
      by simp
    with x show ?thesis by simp
  qed
  from sub sup have seteq: "set (map nID (forestNodes ?forest)) = {ID a | a ps. pathTo as a ps}"
    by blast
  show ?thesis
  proof (intro exI [of _ ?forest] conjI ballI)
    show "buildRootNodes (length as) rng shuffle as sm = Some ?forest" by (rule forest)
    show "distinct (map nID (forestNodes ?forest))" by (rule dist)
    show "set (map nID (forestNodes ?forest)) = {ID a | a ps. pathTo as a ps}" by (rule seteq)
    show "mset (map nID ?forest) = mset (map ID (filter isRoot as))" by (rule roots)
  next
    fix node assume "node \<in> set (forestNodes ?forest)"
    then show "mset (map nID (nChildren node)) =
         mset (map ID (filter (\<lambda>c. ParentID c = Some (nID node)) as))"
      by (rule children)
  qed
qed

text \<open>
  C1, as amended. For articles with distinct, non-empty identifiers, whatever the order
  of the loops over the map and whatever the sort, a stack as deep as the list is long is
  enough for the tree builder, and the forest it returns has no identifier twice; its
  nodes are the articles from which the parent references lead to a root; its roots are
  the articles with a nil or empty parent; the children of a node are the articles whose
  parent reference is the identifier of the node.
\<close>

theorem C1_forest:
  assumes u: "uniqueIDs as" and v: "\<forall>i. visitsKeys (rng i) (indexByID as)" and s: "rearranges shuffle"
  shows "\<exists>forest. buildRootNodes (length as) rng shuffle as sm = Some forest \<and>
      distinct (map nID (forestNodes forest)) \<and>
      set (map nID (forestNodes forest)) = {ID a | a ps. pathTo as a ps} \<and>
      mset (map nID forest) = mset (map ID (filter isRoot as)) \<and>
      (\<forall>node \<in> set (forestNodes forest).
         mset (map nID (nChildren node)) =
         mset (map ID (filter (\<lambda>c. ParentID c = Some (nID node)) as)))"
  using u v s by (rule buildRootNodes_forest)

text \<open>
  C1 as stated fails: the parent of the article \<open>A-9\<close> is not in the list, and the
  forest has the articles A, B and C and no node for \<open>A-9\<close>.
\<close>

theorem C1_unresolved_parent_omitted:
  "buildRootNodes 4 (\<lambda>i. [''A-3'', ''A-9'', ''A-2'', ''A-1'']) (\<lambda>xs. xs) knowledgeBase noStatus =
     Some [ArticleNode ''A-1'' ''A'' StatusUnchanged
             [ArticleNode ''A-3'' ''C'' StatusUnchanged [] [],
              ArticleNode ''A-2'' ''B'' StatusUnchanged [] []] []]
   \<and> articleLost \<in> set knowledgeBase
   \<and> ParentID articleLost = Some ''Z-0''
   \<and> indexByID knowledgeBase ''Z-0'' = None"
  by code_simp

theorem C1_forest_witness:
  "uniqueIDs knowledgeBase
   \<and> (\<exists>forest. buildRootNodes (length knowledgeBase) (\<lambda>i. [''A-3'', ''A-9'', ''A-2'', ''A-1''])
                  (\<lambda>xs. xs) knowledgeBase noStatus = Some forest \<and>
        distinct (map nID (forestNodes forest)) \<and>
        set (map nID (forestNodes forest)) = {ID a | a ps. pathTo knowledgeBase a ps} \<and>
        mset (map nID forest) = mset (map ID (filter isRoot knowledgeBase)) \<and>
        (\<forall>node \<in> set (forestNodes forest).
           mset (map nID (nChildren node)) =
           mset (map ID (filter (\<lambda>c. ParentID c = Some (nID node)) knowledgeBase))))"
proof -
  have u: "uniqueIDs knowledgeBase"
    by (simp add: uniqueIDs_def knowledgeBase_def articleA_def articleB_def articleC_def articleLost_def)
  have v: "\<forall>i. visitsKeys ((\<lambda>i. [''A-3'', ''A-9'', ''A-2'', ''A-1'']) i) (indexByID knowledgeBase)"
    by (auto simp: visitsKeys_def dom_indexByID knowledgeBase_def articleA_def articleB_def
        articleC_def articleLost_def)
  from C1_forest [OF u v rearranges_id, of noStatus] u show ?thesis
    by simp
qed

text \<open>
  C3 as stated fails: B comes before C in the list, both have \<open>Order\<close> 0, the loop over
  the map visits C first and the insertion leaves them so: C comes before B among the
  children of A.
\<close>

theorem C3_ties_in_map_order:
  "buildRootNodes 2 (\<lambda>i. [''A-3'', ''A-2'', ''A-1'']) (\<lambda>xs. xs) [articleA, articleB, articleC] noStatus =
     Some [ArticleNode ''A-1'' ''A'' StatusUnchanged
             [ArticleNode ''A-3'' ''C'' StatusUnchanged [] [],
              ArticleNode ''A-2'' ''B'' StatusUnchanged [] []] []]
   \<and> map ID (filter (\<lambda>c. ParentID c = Some ''A-1'') [articleA, articleB, articleC]) = [''A-2'', ''A-3'']
   \<and> Order articleB = Order articleC
   \<and> findChildren [''A-3'', ''A-2'', ''A-1''] (\<lambda>xs. xs) (indexByID [articleA, articleB, articleC]) articleA =
       [articleC, articleB]"
  by code_simp

text \<open>
  In the scenario the loop over the map meets Advanced (\<open>Order\<close> 1) before Setup
  (\<open>Order\<close> 0), and the sort puts Setup first.
\<close>

theorem C3_children_sorted_witness:
  "map Title (filter (\<lambda>child. ParentID child = Some (ID articleIntro))
                (List.map_filter (indexByID scenario) [''K-3'', ''K-2'', ''K-1''])) = [''Advanced'', ''Setup'']
   \<and> map Title (findChildren [''K-3'', ''K-2'', ''K-1''] (\<lambda>xs. xs) (indexByID scenario) articleIntro) =
       [''Setup'', ''Advanced'']
   \<and> sorted (map Order (findChildren [''K-3'', ''K-2'', ''K-1''] (\<lambda>xs. xs) (indexByID scenario)
                          articleIntro))
   \<and> buildRootNodes (length scenario) (\<lambda>i. [''K-3'', ''K-2'', ''K-1'']) (\<lambda>xs. xs) scenario noStatus =
       Some [ArticleNode ''K-1'' ''Intro'' StatusUnchanged
               [ArticleNode ''K-2'' ''Setup'' StatusUnchanged [] [],
                ArticleNode ''K-3'' ''Advanced'' StatusUnchanged [] []] []]
   \<and> map (orderOf (indexByID scenario))
        [ArticleNode ''K-2'' ''Setup'' StatusUnchanged [] [],
         ArticleNode ''K-3'' ''Advanced'' StatusUnchanged [] []] = [0, 1]
   \<and> sorted (map (orderOf (indexByID scenario))
        [ArticleNode ''K-2'' ''Setup'' StatusUnchanged [] [],
         ArticleNode ''K-3'' ''Advanced'' StatusUnchanged [] []])"
proof -
  let ?rng = "\<lambda>i::string. [''K-3'', ''K-2'', ''K-1'']"
  let ?id = "\<lambda>xs::Article list. xs"
  let ?forest = "[ArticleNode ''K-1'' ''Intro'' StatusUnchanged
               [ArticleNode ''K-2'' ''Setup'' StatusUnchanged [] [],
                ArticleNode ''K-3'' ''Advanced'' StatusUnchanged [] []] []]"
  have b: "buildRootNodes (length scenario) ?rng ?id scenario noStatus = Some ?forest"
    by code_simp
  have n: "ArticleNode ''K-1'' ''Intro'' StatusUnchanged
               [ArticleNode ''K-2'' ''Setup'' StatusUnchanged [] [],
                ArticleNode ''K-3'' ''Advanced'' StatusUnchanged [] []] [] \<in> set (forestNodes ?forest)"
    by (simp add: forestNodes_def)
  have u: "uniqueIDs scenario"
    by (simp add: uniqueIDs_def scenario_def articleIntro_def articleSetup_def articleAdvanced_def)
  have v: "\<forall>i. visitsKeys (?rng i) (indexByID scenario)"
    by (auto simp: visitsKeys_def dom_indexByID scenario_def articleIntro_def articleSetup_def
        articleAdvanced_def)
  have before: "map Title (filter (\<lambda>child. ParentID child = Some (ID articleIntro))
                (List.map_filter (indexByID scenario) [''K-3'', ''K-2'', ''K-1''])) = [''Advanced'', ''Setup'']"
    by code_simp
  have after: "map Title (findChildren [''K-3'', ''K-2'', ''K-1''] ?id (indexByID scenario) articleIntro) =
       [''Setup'', ''Advanced'']"
    by code_simp
  have orders: "map (orderOf (indexByID scenario))
        [ArticleNode ''K-2'' ''Setup'' StatusUnchanged [] [],
         ArticleNode ''K-3'' ''Advanced'' StatusUnchanged [] []] = [0, 1]"
    by code_simp
  from C3_children_sorted [where ks = "[''K-3'', ''K-2'', ''K-1'']" and shuffle = ?id
      and m = "indexByID scenario" and a = articleIntro and depth = "length scenario" and rng = ?rng
      and serverArticles = scenario and sm = noStatus and forest = ?forest]
    b n u v rearranges_id before after orders
  show ?thesis by fastforce
qed

subsection \<open>The download\<close>

lemma ReplaceAll_single: "ReplaceAll s [c] [d] = map (\<lambda>x. if x = c then d else x) s"
  by (induction s) auto

lemma foldl_ReplaceAll:
  "d \<notin> set cs \<Longrightarrow>
   foldl (\<lambda>result char. ReplaceAll result [char] [d]) name cs =
     map (\<lambda>x. if x \<in> set cs then d else x) name"
proof (induction cs arbitrary: name)
  case Nil
  then show ?case by simp
next
  case (Cons c cs)
  then have "foldl (\<lambda>result char. ReplaceAll result [char] [d]) (ReplaceAll name [c] [d]) cs =
      map (\<lambda>x. if x \<in> set cs then d else x) (ReplaceAll name [c] [d])"
    by simp
  with Cons.prems show ?case
    by (auto simp: ReplaceAll_single)
qed

lemma SanitizeFilename_map:
  "SanitizeFilename name = map (\<lambda>c. if c \<in> set invalidChars then CHR ''_'' else c) name"
proof -
  have "CHR ''_'' \<notin> set invalidChars" by (simp add: invalidChars_def)
  from foldl_ReplaceAll [OF this] show ?thesis by (simp add: SanitizeFilename_def)
qed

lemma splitOn_no_sep: "sep \<notin> set w \<Longrightarrow> splitOn sep w = [w]"
  by (induction w) auto

lemma splitOn_append: "sep \<notin> set w \<Longrightarrow> splitOn sep (w @ sep # rest) = w # splitOn sep rest"
  by (induction w) auto

lemma joinWith_Cons: "es \<noteq> [] \<Longrightarrow> joinWith sep (e # es) = e @ sep @ joinWith sep es"
  by (cases es) auto

lemma joinWith_snoc: "es \<noteq> [] \<Longrightarrow> joinWith sep (es @ [e]) = joinWith sep es @ sep @ e"
proof (induction es)
  case Nil
  then show ?case by simp
next
  case (Cons x es)
  then show ?case
    by (cases "es = []") (simp_all add: joinWith_Cons)
qed

lemma splitOn_joinWith:
  "ns \<noteq> [] \<Longrightarrow> \<forall>n \<in> set ns. sep \<notin> set n \<Longrightarrow> splitOn sep (joinWith [sep] ns) = ns"
proof (induction ns)
  case Nil
  then show ?case by simp
next
  case (Cons n ns)
  show ?case
  proof (cases "ns = []")
    case True
    with Cons.prems show ?thesis by (simp add: splitOn_no_sep)
  next
    case False
    with Cons show ?thesis
      by (simp add: joinWith_Cons splitOn_append)
  qed
qed

lemma cleanElems_regular:
  "\<forall>n \<in> set ns. regularName n \<Longrightarrow> cleanElems rooted out ns = rev out @ ns"
  by (induction ns arbitrary: out) (auto simp: regularName_def)

lemma joinWith_nonempty:
  "ns \<noteq> [] \<Longrightarrow> hd ns \<noteq> [] \<Longrightarrow> joinWith sep ns \<noteq> [] \<and> hd (joinWith sep ns) = hd (hd ns)"
proof (cases ns)
  case Nil
  assume "ns \<noteq> []"
  with Nil show ?thesis by simp
next
  case (Cons n ms)
  assume "hd ns \<noteq> []"
  with Cons show ?thesis
    by (cases "ms = []") (simp_all add: joinWith_Cons)
qed

lemma Clean_regular:
  assumes "ns \<noteq> []" "\<forall>n \<in> set ns. regularName n"
  shows "Clean (joinWith ''/'' ns) = joinWith ''/'' ns"
proof -
  from assms have h: "hd ns \<noteq> []" "CHR ''/'' \<notin> set (hd ns)"
    by (auto simp: regularName_def)
  from h have "hd (hd ns) \<noteq> CHR ''/''"
    by (cases "hd ns") auto
  with joinWith_nonempty [OF assms(1) h(1), of "''/''"]
  have ne: "joinWith ''/'' ns \<noteq> []" and nr: "hd (joinWith ''/'' ns) \<noteq> CHR ''/''"
    by simp_all
  from assms have sp: "splitOn CHR ''/'' (joinWith ''/'' ns) = ns"
    using splitOn_joinWith [of ns "CHR ''/''"] by (auto simp: regularName_def)
  show ?thesis
    using ne nr by (simp add: Clean_def sp cleanElems_regular assms(2))
qed

lemma pathOf_nonempty: "\<forall>n \<in> set ns. regularName n \<Longrightarrow> pathOf ns \<noteq> []"
  using joinWith_nonempty [of ns "''/''"]
  by (cases "ns = []") (auto simp: pathOf_def regularName_def)

lemma Join_regular:
  assumes d: "\<forall>n \<in> set dir. regularName n" and n: "regularName name"
  shows "Join [pathOf dir, name] = pathOf (dir @ [name])"
proof (cases "dir = []")
  case True
  from n have "splitOn CHR ''/'' name = [name]" "name \<noteq> []"
    by (auto simp: regularName_def splitOn_no_sep)
  with n True show ?thesis
    by (simp add: Join_def pathOf_def Clean_def regularName_def)
next
  case False
  from pathOf_nonempty [OF d] have "Join [pathOf dir, name] = Clean (pathOf dir @ ''/'' @ name)"
    by (simp add: Join_def)
  also from False have "pathOf dir @ ''/'' @ name = joinWith ''/'' (dir @ [name])"
    by (simp add: pathOf_def joinWith_snoc)
  also have "Clean \<dots> = joinWith ''/'' (dir @ [name])"
    using d n by (intro Clean_regular) auto
  finally show ?thesis by (simp add: pathOf_def)
qed

lemma SanitizeFilename_no_separator: "CHR ''/'' \<notin> set (SanitizeFilename name)"
  by (auto simp: SanitizeFilename_map invalidChars_def)

lemma regularName_md: "CHR ''/'' \<notin> set name \<Longrightarrow> regularName (name @ ''.md'')"
proof -
  assume n: "CHR ''/'' \<notin> set name"
  have "length (name @ ''.md'') \<ge> 3" by simp
  then have "name @ ''.md'' \<noteq> []" "name @ ''.md'' \<noteq> ''.''" "name @ ''.md'' \<noteq> ''..''"
    by (auto simp del: length_append dest!: arg_cong [where f = length])
  with n show ?thesis by (simp add: regularName_def)
qed

lemma forEach_total:
  "\<forall>x \<in> set xs. \<exists>w. body x = Some w \<Longrightarrow> \<exists>w. forEach body xs = Some w"
proof (induction xs)
  case Nil
  then show ?case by simp
next
  case (Cons x xs)
  then obtain w w' where "body x = Some w" "forEach body xs = Some w'" by auto
  then show ?case
    by (cases w; cases w') (auto split: option.splits)
qed

lemma forEach_all:
  "\<forall>x \<in> set xs. body x = Some (f x, None) \<Longrightarrow> forEach body xs = Some (concat (map f xs), None)"
  by (induction xs) auto

lemma downloadArticleRecursive_total:
  "buildTreeNode n rng shuffle m sm a = Some t \<Longrightarrow>
     \<exists>w. downloadArticleRecursive n rng shuffle marshal writeError m basePath a = Some w"
proof (induction n arbitrary: a t basePath)
  case 0
  then show ?case by simp
next
  case (Suc n)
  note b = buildTreeNode_Suc [OF Suc.prems]
  let ?cs = "findChildren (rng (ID a)) shuffle m a"
  have "\<forall>c \<in> set ?cs. \<exists>w. downloadArticleRecursive n rng shuffle marshal writeError m
                                (Join [basePath, SanitizeFilename (Title a)]) c = Some w"
    using b(3) Suc.IH by blast
  from forEach_total [OF this] obtain w where
    "forEach (downloadArticleRecursive n rng shuffle marshal writeError m
                (Join [basePath, SanitizeFilename (Title a)])) ?cs = Some w"
    by blast
  then show ?case
    by (cases w) (auto simp: Let_def split: sum.splits option.splits)
qed

lemma buildTreeNode_node:
  assumes "buildTreeNode (Suc n) rng shuffle m sm a = Some t"
  shows "\<exists>st path. t = ArticleNode (ID a) (Title a) st
                         (map (\<lambda>c. the (buildTreeNode n rng shuffle m sm c))
                            (findChildren (rng (ID a)) shuffle m a)) path"
  using assms those_map_eq_Some [of "buildTreeNode n rng shuffle m sm" "findChildren (rng (ID a)) shuffle m a"]
  by (auto split: option.splits)

lemma downloadArticleRecursive_placed:
  assumes s: "rearranges shuffle"
    and y: "\<forall>fm. marshal fm = Inr (yaml fm)"
    and w: "\<forall>p. writeError p = None"
    and r: "\<forall>x \<in> set as. regularName (SanitizeFilename (Title x))"
  shows "buildTreeNode n rng shuffle (indexByID as) sm a = Some t \<Longrightarrow>
         indexByID as (ID a) = Some a \<Longrightarrow> \<forall>d \<in> set dir. regularName d \<Longrightarrow>
         downloadArticleRecursive n rng shuffle marshal writeError (indexByID as) (pathOf dir) a =
           Some (placed (documentOf yaml (indexByID as)) dir t, None)"
proof (induction n arbitrary: a t dir)
  case 0
  then show ?case by simp
next
  case (Suc n)
  let ?m = "indexByID as"
  let ?cs = "findChildren (rng (ID a)) shuffle ?m a"
  let ?B = "buildTreeNode n rng shuffle ?m sm"
  let ?san = "SanitizeFilename (Title a)"
  let ?doc = "documentOf yaml ?m"
  note b = buildTreeNode_Suc [OF Suc.prems(1)]
  from buildTreeNode_node [OF Suc.prems(1)] obtain st path where
    t: "t = ArticleNode (ID a) (Title a) st (map (\<lambda>c. the (?B c)) ?cs) path"
    by blast
  from indexByID_Some [OF Suc.prems(2)] r have ra: "regularName ?san" by simp
  have j1: "Join [pathOf dir, ?san @ ''.md''] = pathOf (dir @ [?san @ ''.md''])"
    using Suc.prems(3) regularName_md [OF SanitizeFilename_no_separator]
    by (intro Join_regular) auto
  have j2: "Join [pathOf dir, ?san] = pathOf (dir @ [?san])"
    using Suc.prems(3) ra by (intro Join_regular) auto
  have dir': "\<forall>d \<in> set (dir @ [?san]). regularName d"
    using Suc.prems(3) ra by simp
  have "\<forall>c \<in> set ?cs.
          downloadArticleRecursive n rng shuffle marshal writeError ?m (pathOf (dir @ [?san])) c =
            Some (placed ?doc (dir @ [?san]) (the (?B c)), None)"
  proof
    fix c assume c: "c \<in> set ?cs"
    with b(3) have "?B c = Some (the (?B c))" by auto
    moreover from findChildren_indexed [OF s c] have "?m (ID c) = Some c" .
    ultimately show "downloadArticleRecursive n rng shuffle marshal writeError ?m (pathOf (dir @ [?san])) c =
            Some (placed ?doc (dir @ [?san]) (the (?B c)), None)"
      using dir' by (rule Suc.IH)
  qed
  from forEach_all [OF this]
  have f: "forEach (downloadArticleRecursive n rng shuffle marshal writeError ?m (pathOf (dir @ [?san]))) ?cs =
             Some (concat (map (\<lambda>c. placed ?doc (dir @ [?san]) (the (?B c))) ?cs), None)" .
  have d: "?doc (ID a) = fileOf yaml a"
    using Suc.prems(2) by (simp add: documentOf_def)
  have y': "marshal \<lparr>fmID = ID a, fmTitle = Title a, fmURL = URL a\<rparr> =
              Inr (yaml \<lparr>fmID = ID a, fmTitle = Title a, fmURL = URL a\<rparr>)"
    using y by blast
  have w': "writeError (pathOf (dir @ [?san @ ''.md''])) = None"
    using w by blast
  show ?case
    by (simp add: Let_def WriteMarkdown_def y' w' j1 j2 f t d fileOf_def comp_def)
qed

lemma buildTreeNode_articles:
  assumes s: "rearranges shuffle"
  shows "buildTreeNode n rng shuffle (indexByID as) sm a = Some t \<Longrightarrow>
         indexByID as (ID a) = Some a \<Longrightarrow> node \<in> set (subnodes t) \<Longrightarrow>
         \<exists>x. indexByID as (nID node) = Some x \<and> nTitle node = Title x"
proof (induction n arbitrary: a t)
  case 0
  then show ?case by simp
next
  case (Suc n)
  let ?m = "indexByID as"
  let ?cs = "findChildren (rng (ID a)) shuffle ?m a"
  let ?B = "buildTreeNode n rng shuffle ?m sm"
  note b = buildTreeNode_Suc [OF Suc.prems(1)]
  from buildTreeNode_node [OF Suc.prems(1)] obtain st path where
    t: "t = ArticleNode (ID a) (Title a) st (map (\<lambda>c. the (?B c)) ?cs) path"
    by blast
  from Suc.prems(3) consider "node = t" | c where "c \<in> set ?cs" "node \<in> set (subnodes (the (?B c)))"
    using b(2) by (subst (asm) subnodes_unfold) auto
  then show ?case
  proof cases
    case 1
    with t Suc.prems(2) show ?thesis by auto
  next
    case 2
    from b(3) 2(1) have "?B c = Some (the (?B c))" by auto
    moreover from findChildren_indexed [OF s 2(1)] have "?m (ID c) = Some c" .
    ultimately show ?thesis using 2(2) by (rule Suc.IH)
  qed
qed

lemma forestNodes_articles:
  assumes u: "uniqueIDs as" and s: "rearranges shuffle"
    and b: "buildRootNodes n rng shuffle as sm = Some forest"
    and n: "node \<in> set (forestNodes forest)"
  shows "\<exists>a \<in> set as. indexByID as (nID node) = Some a \<and> ID a = nID node \<and> nTitle node = Title a"
proof -
  from forestNodes_built [OF b n] obtain r t where
    r: "r \<in> set (sortSlice shuffle (\<lambda>a b. Order a < Order b) (filter isRoot as))"
    and t: "buildTreeNode n rng shuffle (indexByID as) sm r = Some t" "node \<in> set (subnodes t)"
    by blast
  from r set_sortSlice [OF s] have "r \<in> set as" by auto
  with u have "indexByID as (ID r) = Some r"
    using indexByID_distinct [of as "ID r" r] by (simp add: uniqueIDs_def)
  from buildTreeNode_articles [OF s t(1) this t(2)] obtain x where
    x: "indexByID as (nID node) = Some x" "nTitle node = Title x"
    by blast
  with indexByID_Some [OF x(1)] show ?thesis by auto
qed

lemma runDownload_placed:
  assumes l: "ListArticles cfg reply = Inr as" and u: "uniqueIDs as" and s: "rearranges shuffle"
    and b: "buildRootNodes (length as) rng shuffle as sm = Some forest"
  shows "\<exists>ws res. runDownload (length as) rng shuffle marshal writeError cfg reply = Some (ws, res) \<and>
           ((\<forall>fm. marshal fm = Inr (yaml fm)) \<and> (\<forall>p. writeError p = None) \<and>
            (\<forall>a \<in> set as. regularName (SanitizeFilename (Title a))) \<longrightarrow>
              res = None \<and> ws = concat (map (placed (documentOf yaml (indexByID as)) []) forest))"
proof (cases "as = []")
  case True
  with s have "sortSlice shuffle (\<lambda>a b. Order a < Order b) (filter isRoot as) = []"
    using mset_sortSlice [of shuffle "\<lambda>a b. Order a < Order b" "[]"] by simp
  with b have "forest = []" by (simp add: buildRootNodes_def)
  with True l show ?thesis by (simp add: runDownload_def)
next
  case False
  let ?m = "indexByID as"
  let ?B = "buildTreeNode (length as) rng shuffle ?m sm"
  let ?D = "downloadArticleRecursive (length as) rng shuffle marshal writeError ?m ''.''"
  let ?roots = "sortSlice shuffle (\<lambda>a b. Order a < Order b) (filter isRoot as)"
  let ?doc = "documentOf yaml ?m"
  from those_map_eq_Some [of ?B ?roots forest] b
  have f: "forest = map (\<lambda>x. the (?B x)) ?roots" and ok: "\<forall>x\<in>set ?roots. \<exists>y. ?B x = Some y"
    by (simp_all add: buildRootNodes_def)
  have run: "runDownload (length as) rng shuffle marshal writeError cfg reply = forEach ?D ?roots"
    using False l by (simp add: runDownload_def)
  have "\<forall>x \<in> set ?roots. \<exists>w. ?D x = Some w"
    using ok downloadArticleRecursive_total by blast
  from forEach_total [OF this] obtain ws res where w: "forEach ?D ?roots = Some (ws, res)"
    by fastforce
  have "res = None \<and> ws = concat (map (placed ?doc []) forest)"
    if h: "(\<forall>fm. marshal fm = Inr (yaml fm)) \<and> (\<forall>p. writeError p = None) \<and>
           (\<forall>a \<in> set as. regularName (SanitizeFilename (Title a)))"
  proof -
    from h have y: "\<forall>fm. marshal fm = Inr (yaml fm)" and we: "\<forall>p. writeError p = None"
      and r: "\<forall>a \<in> set as. regularName (SanitizeFilename (Title a))"
      by blast+
    have "\<forall>x \<in> set ?roots. ?D x = Some (placed ?doc [] (the (?B x)), None)"
    proof
      fix x assume x: "x \<in> set ?roots"
      with set_sortSlice [OF s] have "x \<in> set as" by auto
      with u have i: "?m (ID x) = Some x"
        using indexByID_distinct [of as "ID x" x] by (simp add: uniqueIDs_def)
      from ok x have "?B x = Some (the (?B x))" by auto
      from downloadArticleRecursive_placed [OF s y we r this i, of "[]"]
      show "?D x = Some (placed ?doc [] (the (?B x)), None)"
        by (simp add: pathOf_def)
    qed
    from forEach_all [OF this] w f show ?thesis
      by (simp add: comp_def)
  qed
  with run w show ?thesis by auto
qed

lemma orderOf_listed:
  assumes l: "ListArticles cfg reply = Inr as"
  shows "orderOf (indexByID as) node = 0"
proof (cases "indexByID as (nID node)")
  case None
  then show ?thesis by (simp add: orderOf_def)
next
  case (Some a)
  from indexByID_Some [OF Some] have "a \<in> set as" by simp
  moreover from l obtain b ars where "as = convertArticles cfg b ars"
    by (auto simp: ListArticles_def Let_def split: http_reply.splits if_splits sum.splits)
  ultimately have "Order a = 0" by (simp add: convertArticles_Order)
  with Some show ?thesis by (simp add: orderOf_def)
qed

lemma sorted_listed:
  assumes l: "ListArticles cfg reply = Inr as"
  shows "sorted (map (orderOf (indexByID as)) nodes)"
proof -
  have "map (orderOf (indexByID as)) nodes = replicate (length nodes) 0"
    by (induction nodes) (simp_all add: orderOf_listed [OF l])
  then show ?thesis by (simp add: sorted_replicate)
qed

text \<open>
  C8, as amended. For a catalog that \<open>ListArticles\<close> returns, with distinct identifiers,
  the download returns, with a stack as deep as the list is long, and goes through the
  forest of the tree builder: the articles from which the parent references lead to a
  root, each once. When encoding and writing do not fail and every sanitized title is a
  regular name, it writes for every node of that forest, the node before its children
  and the children in their order, the file named by the sanitized title with \<open>.md\<close> in
  the directory of the node, holding the delimited YAML of identifier, title and URL and
  then the body; the directory of the children is the subdirectory named by the
  sanitized title. \<open>SanitizeFilename\<close> replaces each of \<open>/ \ < > : " | ? *\<close> by \<open>_\<close> and
  leaves the rest; \<open>filepath.Join\<close> of a directory of regular names and a regular name is
  the directory extended by the name. Every article of the catalog has \<open>Order\<close> 0: roots
  and children are in non-decreasing \<open>Order\<close>, and which sibling comes first is left to
  the loop over the map.
\<close>

theorem C8_download:
  assumes l: "ListArticles cfg reply = Inr articles" and u: "uniqueIDs articles"
    and v: "\<forall>i. visitsKeys (rng i) (indexByID articles)" and s: "rearranges shuffle"
  shows "(\<exists>forest ws res.
            buildRootNodes (length articles) rng shuffle articles noStatus = Some forest \<and>
            distinct (map nID (forestNodes forest)) \<and>
            set (map nID (forestNodes forest)) = {ID a |a ps. pathTo articles a ps} \<and>
            (\<forall>node \<in> set (forestNodes forest). \<exists>a \<in> set articles.
               indexByID articles (nID node) = Some a \<and> ID a = nID node \<and> nTitle node = Title a) \<and>
            sorted (map (orderOf (indexByID articles)) forest) \<and>
            (\<forall>node \<in> set (forestNodes forest).
               sorted (map (orderOf (indexByID articles)) (nChildren node))) \<and>
            runDownload (length articles) rng shuffle marshal writeError cfg reply = Some (ws, res) \<and>
            ((\<forall>fm. marshal fm = Inr (yaml fm)) \<and> (\<forall>p. writeError p = None) \<and>
             (\<forall>a \<in> set articles. regularName (SanitizeFilename (Title a))) \<longrightarrow>
               res = None \<and>
               ws = concat (map (placed (documentOf yaml (indexByID articles)) []) forest)))
   \<and> (\<forall>a \<in> set articles. Order a = 0)
   \<and> SanitizeFilename title = map (\<lambda>c. if c \<in> set invalidChars then CHR ''_'' else c) title
   \<and> ((\<forall>d \<in> set dir. regularName d) \<and> regularName name \<longrightarrow>
        Join [pathOf dir, name] = pathOf (dir @ [name]))"
proof (intro conjI)
  from buildRootNodes_forest [OF u v s, of noStatus] obtain forest where
    b: "buildRootNodes (length articles) rng shuffle articles noStatus = Some forest"
    and d: "distinct (map nID (forestNodes forest))"
    and n: "set (map nID (forestNodes forest)) = {ID a |a ps. pathTo articles a ps}"
    by blast
  from runDownload_placed [OF l u s b, of marshal writeError yaml] obtain ws res where
    "runDownload (length articles) rng shuffle marshal writeError cfg reply = Some (ws, res)"
    "(\<forall>fm. marshal fm = Inr (yaml fm)) \<and> (\<forall>p. writeError p = None) \<and>
             (\<forall>a \<in> set articles. regularName (SanitizeFilename (Title a))) \<longrightarrow>
               res = None \<and>
               ws = concat (map (placed (documentOf yaml (indexByID articles)) []) forest)"
    by blast
  moreover have "\<forall>node \<in> set (forestNodes forest). \<exists>a \<in> set articles.
               indexByID articles (nID node) = Some a \<and> ID a = nID node \<and> nTitle node = Title a"
    using forestNodes_articles [OF u s b] by blast
  ultimately show "\<exists>forest ws res.
            buildRootNodes (length articles) rng shuffle articles noStatus = Some forest \<and>
            distinct (map nID (forestNodes forest)) \<and>
            set (map nID (forestNodes forest)) = {ID a |a ps. pathTo articles a ps} \<and>
            (\<forall>node \<in> set (forestNodes forest). \<exists>a \<in> set articles.
               indexByID articles (nID node) = Some a \<and> ID a = nID node \<and> nTitle node = Title a) \<and>
            sorted (map (orderOf (indexByID articles)) forest) \<and>
            (\<forall>node \<in> set (forestNodes forest).
               sorted (map (orderOf (indexByID articles)) (nChildren node))) \<and>
            runDownload (length articles) rng shuffle marshal writeError cfg reply = Some (ws, res) \<and>
            ((\<forall>fm. marshal fm = Inr (yaml fm)) \<and> (\<forall>p. writeError p = None) \<and>
             (\<forall>a \<in> set articles. regularName (SanitizeFilename (Title a))) \<longrightarrow>
               res = None \<and>
               ws = concat (map (placed (documentOf yaml (indexByID articles)) []) forest))"
    using b d n sorted_listed [OF l]
    by (intro exI [of _ forest] exI [of _ ws] exI [of _ res]) blast
next
  from l obtain b ars where "articles = convertArticles cfg b ars"
    by (auto simp: ListArticles_def Let_def split: http_reply.splits if_splits sum.splits)
  then show "\<forall>a \<in> set articles. Order a = 0"
    by (simp add: convertArticles_Order)
next
  show "SanitizeFilename title = map (\<lambda>c. if c \<in> set invalidChars then CHR ''_'' else c) title"
    by (rule SanitizeFilename_map)
next
  show "(\<forall>d \<in> set dir. regularName d) \<and> regularName name \<longrightarrow>
        Join [pathOf dir, name] = pathOf (dir @ [name])"
    using Join_regular by blast
qed

text \<open>
  C8 as stated fails. The service is not asked for the order, so that Advanced has
  \<open>Order\<close> 0 as Setup has, and when the loop over the map visits \<open>K-3\<close> first,
  \<open>Intro/Advanced.md\<close> is written before \<open>Intro/Setup.md\<close>. And the child of an
  article with the title \<open>..\<close> is written to the directory above the target.
\<close>

theorem C8_siblings_in_map_order:
  "ListArticles ytConfig (served scenario) =
     Inr [articleIntro, articleSetup, articleAdvanced\<lparr>Order := 0\<rparr>]
   \<and> runDownload 3 (\<lambda>i. [''K-3'', ''K-2'', ''K-1'']) (\<lambda>xs. xs) plainMarshal noWriteError ytConfig
        (served scenario) =
       Some ([(''Intro.md'', fileOf plainYaml articleIntro),
              (''Intro/Advanced.md'', fileOf plainYaml articleAdvanced),
              (''Intro/Setup.md'', fileOf plainYaml articleSetup)], None)
   \<and> runDownload 2 (\<lambda>i. [''K-7'', ''K-8'']) (\<lambda>xs. xs) plainMarshal noWriteError ytConfig
        (served [articleUp, articleBelow]) =
       Some ([(''...md'', fileOf plainYaml articleUp),
              (''../Below.md'', fileOf plainYaml articleBelow)], None)"
  by code_simp

theorem C8_download_witness:
  "ListArticles ytConfig (served scenario) =
     Inr [articleIntro, articleSetup, articleAdvanced\<lparr>Order := 0\<rparr>]
   \<and> uniqueIDs [articleIntro, articleSetup, articleAdvanced\<lparr>Order := 0\<rparr>]
   \<and> buildRootNodes 3 (\<lambda>i. [''K-1'', ''K-2'', ''K-3'']) (\<lambda>xs. xs)
        [articleIntro, articleSetup, articleAdvanced\<lparr>Order := 0\<rparr>] noStatus =
       Some [ArticleNode ''K-1'' ''Intro'' StatusUnchanged
               [ArticleNode ''K-2'' ''Setup'' StatusUnchanged [] [],
                ArticleNode ''K-3'' ''Advanced'' StatusUnchanged [] []] []]
   \<and> runDownload 3 (\<lambda>i. [''K-1'', ''K-2'', ''K-3'']) (\<lambda>xs. xs) plainMarshal noWriteError ytConfig
        (served scenario) =
       Some ([(''Intro.md'', fileOf plainYaml articleIntro),
              (''Intro/Setup.md'', fileOf plainYaml articleSetup),
              (''Intro/Advanced.md'', fileOf plainYaml articleAdvanced)], None)
   \<and> fileOf plainYaml articleSetup =
       delimiter @ ''id: K-2'' @ [CHR 0x0A] @ ''title: Setup'' @ [CHR 0x0A] @
       ''url: https://yt/articles/K-2'' @ [CHR 0x0A] @ delimiter @ ''Install''
   \<and> SanitizeFilename ''a/b:c*d?'' = ''a_b_c_d_''
   \<and> Join [pathOf [''Intro''], ''Setup.md''] = ''Intro/Setup.md''"
proof -
  let ?listed = "[articleIntro, articleSetup, articleAdvanced\<lparr>Order := 0\<rparr>]"
  let ?rng = "\<lambda>i::string. [''K-1'', ''K-2'', ''K-3'']"
  let ?id = "\<lambda>xs::Article list. xs"
  let ?forest = "[ArticleNode ''K-1'' ''Intro'' StatusUnchanged
               [ArticleNode ''K-2'' ''Setup'' StatusUnchanged [] [],
                ArticleNode ''K-3'' ''Advanced'' StatusUnchanged [] []] []]"
  let ?files = "[(''Intro.md'', fileOf plainYaml articleIntro),
              (''Intro/Setup.md'', fileOf plainYaml articleSetup),
              (''Intro/Advanced.md'', fileOf plainYaml articleAdvanced)]"
  have l: "ListArticles ytConfig (served scenario) = Inr ?listed"
    by code_simp
  have u: "uniqueIDs ?listed"
    by (simp add: uniqueIDs_def articleIntro_def articleSetup_def articleAdvanced_def)
  have v: "\<forall>i. visitsKeys (?rng i) (indexByID ?listed)"
    by (auto simp: visitsKeys_def dom_indexByID articleIntro_def articleSetup_def articleAdvanced_def)
  have b: "buildRootNodes 3 ?rng ?id ?listed noStatus = Some ?forest"
    by code_simp
  have y: "\<forall>fm. plainMarshal fm = Inr (plainYaml fm)"
    by (simp add: plainMarshal_def plainYaml_def)
  have w: "\<forall>p. noWriteError p = None"
    by (simp add: noWriteError_def)
  have r: "\<forall>a \<in> set ?listed. regularName (SanitizeFilename (Title a))"
    by code_simp
  have p: "concat (map (placed (documentOf plainYaml (indexByID ?listed)) []) ?forest) = ?files"
    by code_simp
  have f: "fileOf plainYaml articleSetup =
       delimiter @ ''id: K-2'' @ [CHR 0x0A] @ ''title: Setup'' @ [CHR 0x0A] @
       ''url: https://yt/articles/K-2'' @ [CHR 0x0A] @ delimiter @ ''Install''"
    by code_simp
  have n: "\<forall>d \<in> set [''Intro'']. regularName d" "regularName ''Setup.md''"
    and pa: "pathOf [''Intro''] = ''Intro''" "pathOf ([''Intro''] @ [''Setup.md'']) = ''Intro/Setup.md''"
    by code_simp+
  note t = C8_download [OF l u v rearranges_id, where marshal = plainMarshal and writeError = noWriteError
      and yaml = plainYaml and title = "''a/b:c*d?''" and dir = "[''Intro'']"
      and name = "''Setup.md''"]
  have len: "length ?listed = 3"
    by simp
  from t [unfolded len] obtain forest ws res where
    bf: "buildRootNodes 3 ?rng ?id ?listed noStatus = Some forest" and
    rd: "runDownload 3 ?rng ?id plainMarshal noWriteError ytConfig (served scenario) = Some (ws, res)" and
    imp: "(\<forall>fm. plainMarshal fm = Inr (plainYaml fm)) \<and> (\<forall>p. noWriteError p = None) \<and>
     (\<forall>a \<in> set ?listed. regularName (SanitizeFilename (Title a))) \<longrightarrow>
       res = None \<and> ws = concat (map (placed (documentOf plainYaml (indexByID ?listed)) []) forest)"
    by blast
  from bf b have fo: "forest = ?forest"
    by (simp only: option.inject)
  from imp y w r have "res = None" "ws = concat (map (placed (documentOf plainYaml (indexByID ?listed)) []) forest)"
    by blast+
  with rd have "runDownload 3 ?rng ?id plainMarshal noWriteError ytConfig (served scenario) =
       Some (concat (map (placed (documentOf plainYaml (indexByID ?listed)) []) forest), None)"
    by (simp only:)
  then have run: "runDownload 3 ?rng ?id plainMarshal noWriteError ytConfig (served scenario) =
       Some (?files, None)"
    unfolding fo p .
  from t have "SanitizeFilename ''a/b:c*d?'' =
                 map (\<lambda>c. if c \<in> set invalidChars then CHR ''_'' else c) ''a/b:c*d?''"
    by blast
  then have sf: "SanitizeFilename ''a/b:c*d?'' = ''a_b_c_d_''"
    by (simp add: invalidChars_def)
  from t n have "Join [pathOf [''Intro''], ''Setup.md''] = pathOf ([''Intro''] @ [''Setup.md''])"
    by blast
  with pa have j: "Join [pathOf [''Intro''], ''Setup.md''] = ''Intro/Setup.md''"
    by simp
  from l u b run f sf j show ?thesis
    by (intro conjI)
qed

subsection \<open>The local files without identifier\<close>

lemma find_append:
  "find P (xs @ ys) = (case find P xs of None \<Rightarrow> find P ys | Some x \<Rightarrow> Some x)"
  by (induction xs) auto

lemma forestNodes_Nil [simp]: "forestNodes [] = []"
  by (simp add: forestNodes_def)

lemma forestNodes_Cons:
  "forestNodes (ArticleNode i t st cs p # ns) = ArticleNode i t st cs p # forestNodes cs @ forestNodes ns"
  by (simp add: forestNodes_def)

lemma forestNodes_append: "forestNodes (xs @ ys) = forestNodes xs @ forestNodes ys"
  by (simp add: forestNodes_def)

lemma pairs_Nil [simp]: "pairs [] = []"
  by (simp add: pairs_def)

lemma pairs_Cons:
  "pairs (ArticleNode i t st cs p # ns) =
     map (\<lambda>c. (label (ArticleNode i t st cs p), label c)) cs @ pairs cs @ pairs ns"
  by (simp add: pairs_def forestNodes_Cons)

lemma pairs_append: "pairs (xs @ ys) = pairs xs @ pairs ys"
  by (simp add: pairs_def forestNodes_append)

lemma findNodeByPath_find:
  "findNodeByPath forest dir = find (inDirectory dir) (forestNodes forest)"
  by (induction forest dir rule: findNodeByPath.induct)
     (auto simp: forestNodes_Cons find_append inDirectory_def split: option.splits)

lemma appendChild_not_found:
  "findNodeByPath forest dir = None \<Longrightarrow> appendChild forest dir node = forest"
  by (induction forest dir node rule: appendChild.induct) (auto split: option.splits if_splits)

lemma appendChild_labels:
  "map label (appendChild forest dir node) = map label forest"
  by (induction forest dir node rule: appendChild.induct) (auto simp: label_def split: option.splits)

lemma appendChild_nodes:
  "findNodeByPath forest dir = Some parent \<Longrightarrow>
     mset (map label (forestNodes (appendChild forest dir node))) =
       mset (map label (forestNodes forest)) + mset (map label (subnodes node))"
proof (induction forest dir node rule: appendChild.induct)
  case (1 targetPath node)
  then show ?case by simp
next
  case (2 i t st children path nodes targetPath node)
  show ?case
  proof (cases "path \<noteq> [] \<and> Dir path = targetPath")
    case True
    then show ?thesis
      by (simp add: forestNodes_Cons forestNodes_append label_def forestNodes_def)
  next
    case False
    then have c: "(path \<noteq> [] \<and> Dir path = targetPath) = False" by simp
    show ?thesis
    proof (cases "findNodeByPath children targetPath")
      case None
      with False "2.prems" have "findNodeByPath nodes targetPath = Some parent"
        by (auto split: if_splits)
      from "2.IH"(1) [OF False None this] None show ?thesis
        by (simp add: c forestNodes_Cons label_def)
    next
      case (Some found)
      with False "2.prems" have "findNodeByPath children targetPath = Some parent"
        by (auto split: if_splits)
      from "2.IH"(2) [OF False Some this] Some show ?thesis
        by (simp add: c forestNodes_Cons label_def)
    qed
  qed
qed

lemma label_simp [simp]: "label (ArticleNode i t st cs p) = (i, t, st, p)"
  by (simp add: label_def)

lemma map_pair_label: "map (\<lambda>c. (l, label c)) xs = map (Pair l) (map label xs)"
  by simp

lemma appendChild_pairs:
  "findNodeByPath forest dir = Some parent \<Longrightarrow>
     mset (pairs (appendChild forest dir node)) =
       mset (pairs forest) + {#(label parent, label node)#} + mset (pairs [node])"
proof (induction forest dir node rule: appendChild.induct)
  case (1 targetPath node)
  then show ?case by simp
next
  case (2 i t st children path nodes targetPath node)
  show ?case
  proof (cases "path \<noteq> [] \<and> Dir path = targetPath")
    case True
    with "2.prems" have "parent = ArticleNode i t st children path" by simp
    with True show ?thesis
      by (simp add: pairs_Cons pairs_append)
  next
    case False
    then have c: "(path \<noteq> [] \<and> Dir path = targetPath) = False" by simp
    show ?thesis
    proof (cases "findNodeByPath children targetPath")
      case None
      with False "2.prems" have "findNodeByPath nodes targetPath = Some parent"
        by (auto split: if_splits)
      from "2.IH"(1) [OF False None this] None show ?thesis
        by (simp add: c pairs_Cons)
    next
      case (Some found)
      with False "2.prems" have "findNodeByPath children targetPath = Some parent"
        by (auto split: if_splits)
      from "2.IH"(2) [OF False Some this] Some
        appendChild_labels [of children targetPath node]
      show ?thesis
        by (simp add: c pairs_Cons map_pair_label del: map_map)
    qed
  qed
qed

lemma subnodes_newLocalNode [simp]: "subnodes (newLocalNode path md) = [newLocalNode path md]"
  by (simp add: newLocalNode_def)

lemma pairs_newLocalNode [simp]: "pairs [newLocalNode path md] = []"
  by (simp add: pairs_def forestNodes_def newLocalNode_def)

lemma forestNodes_newLocalNode [simp]: "forestNodes [newLocalNode path md] = [newLocalNode path md]"
  by (simp add: forestNodes_def)

lemma addNewLocal_alt:
  "addNewLocal rootNodes path md =
     (if Dir path = ''.'' \<or> findNodeByPath rootNodes (Dir path) = None
      then rootNodes @ [newLocalNode path md]
      else appendChild rootNodes (Dir path) (newLocalNode path md))"
  by (auto simp: addNewLocal_def Let_def newLocalNode_def split: option.splits)

lemma addNewLocal_nodes:
  "mset (map label (forestNodes (addNewLocal rootNodes path md))) =
     mset (map label (forestNodes rootNodes)) + {#label (newLocalNode path md)#}"
proof (cases "Dir path = ''.'' \<or> findNodeByPath rootNodes (Dir path) = None")
  case True
  then show ?thesis by (simp add: addNewLocal_alt forestNodes_append)
next
  case False
  then obtain parent where "findNodeByPath rootNodes (Dir path) = Some parent" by auto
  from appendChild_nodes [OF this, of "newLocalNode path md"] False show ?thesis
    by (auto simp: addNewLocal_alt)
qed

lemma addNewLocals_nodes:
  "mset (map label (forestNodes (addNewLocals ks byPath rootNodes))) =
     mset (map label (forestNodes rootNodes)) +
     mset (map (\<lambda>k. label (newLocalNode k (the (byPath k)))) (filter (\<lambda>k. byPath k \<noteq> None) ks))"
proof (induction ks arbitrary: rootNodes)
  case Nil
  then show ?case by (simp add: addNewLocals_def)
next
  case (Cons k ks)
  have step: "addNewLocals (k # ks) byPath rootNodes =
      addNewLocals ks byPath (case byPath k of None \<Rightarrow> rootNodes | Some md \<Rightarrow> addNewLocal rootNodes k md)"
    by (simp add: addNewLocals_def)
  show ?case
  proof (cases "byPath k")
    case None
    with Cons.IH [of rootNodes] step show ?thesis by simp
  next
    case (Some md)
    with Cons.IH [of "addNewLocal rootNodes k md"] step addNewLocal_nodes [of rootNodes k md]
    show ?thesis by simp
  qed
qed

lemma loadLocalFile_byPath:
  "localByPath (loadLocalFile u fs maps p) q =
     (if q = p \<and> identifierless u fs p then decode u fs p else localByPath maps q)"
  by (auto simp: loadLocalFile_def decode_def identifierless_def split: option.splits sum.splits)

lemma foldl_loadLocalFile_byPath:
  "localByPath (foldl (loadLocalFile u fs) maps ps) q =
     (if q \<in> set ps \<and> identifierless u fs q then decode u fs q else localByPath maps q)"
proof (induction ps arbitrary: maps)
  case Nil
  then show ?case by simp
next
  case (Cons p ps)
  show ?case by (auto simp: Cons.IH loadLocalFile_byPath)
qed

lemma loadLocal_byPath:
  "localByPath (loadLocal u fs ps) q =
     (if q \<in> set ps \<and> identifierless u fs q then decode u fs q else None)"
  by (simp add: loadLocal_def foldl_loadLocalFile_byPath noLocal_def)

lemma dom_localByPath:
  "dom (localByPath (loadLocal u fs ps)) = {q \<in> set ps. identifierless u fs q}"
  by (auto simp: loadLocal_byPath identifierless_def split: option.splits if_splits)

text \<open>
  C4. Adding the node of a local file without identifier. When the directory of the
  file is \<open>.\<close>, or no node of the forest has a path in that directory, the node becomes
  the last root. Otherwise the first node in the forest (a node before its children,
  the children before the next sibling) with a path in that directory gets the new node
  as a child: the roots are as before and the parent and child pairs are the ones before
  and this pair. In each case the nodes of the forest are the ones before and the new
  one, with empty identifier, the title of the file, \<open>StatusNewLocal\<close> and the path. The
  loop adds each node to the forest that the additions before it have made, and after
  the loop over the files without identifier of the local snapshot the nodes of the
  forest are the ones before and one node for each of these files.
\<close>

theorem C4_new_local:
  "(Dir path = ''.'' \<or> find (inDirectory (Dir path)) (forestNodes rootNodes) = None \<longrightarrow>
      addNewLocal rootNodes path md = rootNodes @ [newLocalNode path md])
   \<and> (Dir path \<noteq> ''.'' \<and> find (inDirectory (Dir path)) (forestNodes rootNodes) = Some parent \<longrightarrow>
        map label (addNewLocal rootNodes path md) = map label rootNodes \<and>
        mset (pairs (addNewLocal rootNodes path md)) =
          mset (pairs rootNodes) + {#(label parent, label (newLocalNode path md))#})
   \<and> mset (map label (forestNodes (addNewLocal rootNodes path md))) =
        mset (map label (forestNodes rootNodes)) + {#([], fmTitle (mdFrontmatter md), StatusNewLocal, path)#}
   \<and> (byPath path = Some md \<longrightarrow>
        addNewLocals (path # ks') byPath rootNodes = addNewLocals ks' byPath (addNewLocal rootNodes path md))
   \<and> (visitsKeys ks (localByPath (loadLocal unmarshal fs localFiles)) \<longrightarrow>
        mset (map label (forestNodes (addNewLocals ks (localByPath (loadLocal unmarshal fs localFiles))
                                       rootNodes))) =
        mset (map label (forestNodes rootNodes)) +
        mset (map (\<lambda>p. ([], fmTitle (mdFrontmatter (the (decode unmarshal fs p))), StatusNewLocal, p))
               (filter (identifierless unmarshal fs) (remdups localFiles))))"
proof (intro conjI impI)
  assume "Dir path = ''.'' \<or> find (inDirectory (Dir path)) (forestNodes rootNodes) = None"
  then show "addNewLocal rootNodes path md = rootNodes @ [newLocalNode path md]"
    by (simp add: addNewLocal_alt findNodeByPath_find)
next
  assume a: "Dir path \<noteq> ''.'' \<and> find (inDirectory (Dir path)) (forestNodes rootNodes) = Some parent"
  then have f: "findNodeByPath rootNodes (Dir path) = Some parent"
    by (simp add: findNodeByPath_find)
  with a have e: "addNewLocal rootNodes path md = appendChild rootNodes (Dir path) (newLocalNode path md)"
    by (simp add: addNewLocal_alt)
  show "map label (addNewLocal rootNodes path md) = map label rootNodes"
    by (simp only: e appendChild_labels)
  from appendChild_pairs [OF f, of "newLocalNode path md"]
  show "mset (pairs (addNewLocal rootNodes path md)) =
          mset (pairs rootNodes) + {#(label parent, label (newLocalNode path md))#}"
    by (simp add: e)
next
  from addNewLocal_nodes [of rootNodes path md]
  show "mset (map label (forestNodes (addNewLocal rootNodes path md))) =
        mset (map label (forestNodes rootNodes)) + {#([], fmTitle (mdFrontmatter md), StatusNewLocal, path)#}"
    by (simp add: newLocalNode_def)
next
  assume "byPath path = Some md"
  then show "addNewLocals (path # ks') byPath rootNodes = addNewLocals ks' byPath (addNewLocal rootNodes path md)"
    by (simp add: addNewLocals_def)
next
  let ?byPath = "localByPath (loadLocal unmarshal fs localFiles)"
  let ?g = "\<lambda>p. ([], fmTitle (mdFrontmatter (the (decode unmarshal fs p))), StatusNewLocal, p)"
  assume v: "visitsKeys ks ?byPath"
  then have d: "distinct ks" and k: "set ks = {q \<in> set localFiles. identifierless unmarshal fs q}"
    by (simp_all add: visitsKeys_def dom_localByPath)
  have "set ks = set (filter (identifierless unmarshal fs) (remdups localFiles))"
    using k by auto
  with d have m: "mset ks = mset (filter (identifierless unmarshal fs) (remdups localFiles))"
    using set_eq_iff_mset_eq_distinct [of ks "filter (identifierless unmarshal fs) (remdups localFiles)"]
    by simp
  have all: "filter (\<lambda>k. ?byPath k \<noteq> None) ks = ks"
    using v by (auto simp: visitsKeys_def filter_id_conv)
  have "map (\<lambda>k. label (newLocalNode k (the (?byPath k)))) ks = map ?g ks"
    using k by (auto simp: loadLocal_byPath newLocalNode_def)
  then have "mset (map (\<lambda>k. label (newLocalNode k (the (?byPath k)))) ks) = image_mset ?g (mset ks)"
    by (simp only: mset_map)
  also have "\<dots> = mset (map ?g (filter (identifierless unmarshal fs) (remdups localFiles)))"
    by (simp only: m mset_map)
  finally show "mset (map label (forestNodes (addNewLocals ks ?byPath rootNodes))) =
        mset (map label (forestNodes rootNodes)) +
        mset (map ?g (filter (identifierless unmarshal fs) (remdups localFiles)))"
    using addNewLocals_nodes [of ks ?byPath rootNodes] by (simp only: all)
qed

theorem C4_new_local_witness:
  "addNewLocal serverNodes ''Notes.md''
       \<lparr>mdFrontmatter = \<lparr>fmID = [], fmTitle = ''Notes'', fmURL = []\<rparr>, mdContent = ''todo''\<rparr> =
     serverNodes @ [ArticleNode [] ''Notes'' StatusNewLocal [] ''Notes.md'']
   \<and> addNewLocal serverNodes ''X/Y.md''
       \<lparr>mdFrontmatter = \<lparr>fmID = [], fmTitle = ''Notes'', fmURL = []\<rparr>, mdContent = ''todo''\<rparr> =
     serverNodes @ [ArticleNode [] ''Notes'' StatusNewLocal [] ''X/Y.md'']
   \<and> mset (pairs (addNewLocal serverNodes ''A/Draft.md''
       \<lparr>mdFrontmatter = \<lparr>fmID = [], fmTitle = ''Draft'', fmURL = []\<rparr>, mdContent = ''text''\<rparr>)) =
     mset (pairs serverNodes) +
     {#((''A-2'', ''B'', StatusModified, ''A/B.md''), ([], ''Draft'', StatusNewLocal, ''A/Draft.md''))#}
   \<and> mset (map label (forestNodes
        (addNewLocals [''X/Y.md'', ''A/Draft.md'', ''Notes.md'']
           (localByPath (loadLocal plainUnmarshal workingFiles workingTree)) serverNodes))) =
     mset (map label (forestNodes serverNodes)) +
     {#([], ''Draft'', StatusNewLocal, ''A/Draft.md''), ([], ''Notes'', StatusNewLocal, ''Notes.md''),
       ([], ''Notes'', StatusNewLocal, ''X/Y.md'')#}
   \<and> runDiff 3 plainUnmarshal workingFiles (Inr workingTree) ytConfig (served [articleA, articleB, articleC])
       [''A-3'', ''A-1'', ''A-2''] (\<lambda>i. [''A-1'', ''A-2'', ''A-3''])
       [''X/Y.md'', ''A/Draft.md'', ''Notes.md''] (\<lambda>xs. xs) (\<lambda>ns. ns) =
     Some (Inr [ArticleNode ''A-1'' ''A'' StatusUnchanged
                  [ArticleNode ''A-2'' ''B'' StatusModified
                     [ArticleNode [] ''Draft'' StatusNewLocal [] ''A/Draft.md''] ''A/B.md'',
                   ArticleNode ''A-3'' ''C'' StatusDeleted [] []] ''A.md'',
                ArticleNode [] ''Notes'' StatusNewLocal [] ''X/Y.md'',
                ArticleNode [] ''Notes'' StatusNewLocal [] ''Notes.md''])"
proof -
  let ?notes = "\<lparr>mdFrontmatter = \<lparr>fmID = [], fmTitle = ''Notes'', fmURL = []\<rparr>, mdContent = ''todo''\<rparr>"
  let ?draft = "\<lparr>mdFrontmatter = \<lparr>fmID = [], fmTitle = ''Draft'', fmURL = []\<rparr>, mdContent = ''text''\<rparr>"
  let ?ks = "[''X/Y.md'', ''A/Draft.md'', ''Notes.md'']"
  have d1: "Dir ''Notes.md'' = ''.''" and d2: "Dir ''X/Y.md'' = ''X''" and d3: "Dir ''A/Draft.md'' = ''A''"
    by code_simp+
  have f2: "find (inDirectory ''X'') (forestNodes serverNodes) = None"
    by code_simp
  have f3: "find (inDirectory ''A'') (forestNodes serverNodes) =
              Some (ArticleNode ''A-2'' ''B'' StatusModified [] ''A/B.md'')"
    by code_simp
  have i: "filter (identifierless plainUnmarshal workingFiles) (remdups workingTree) =
             [''A/Draft.md'', ''Notes.md'', ''X/Y.md'']"
    by code_simp
  have dec: "decode plainUnmarshal workingFiles ''A/Draft.md'' = Some ?draft"
    "decode plainUnmarshal workingFiles ''Notes.md'' = Some ?notes"
    "decode plainUnmarshal workingFiles ''X/Y.md'' = Some ?notes"
    by code_simp+
  have "{q \<in> set workingTree. identifierless plainUnmarshal workingFiles q} =
          set (filter (identifierless plainUnmarshal workingFiles) (remdups workingTree))"
    by auto
  then have v: "visitsKeys ?ks (localByPath (loadLocal plainUnmarshal workingFiles workingTree))"
    unfolding visitsKeys_def dom_localByPath i by auto
  have run: "runDiff 3 plainUnmarshal workingFiles (Inr workingTree) ytConfig (served [articleA, articleB, articleC])
       [''A-3'', ''A-1'', ''A-2''] (\<lambda>i. [''A-1'', ''A-2'', ''A-3''])
       [''X/Y.md'', ''A/Draft.md'', ''Notes.md''] (\<lambda>xs. xs) (\<lambda>ns. ns) =
     Some (Inr [ArticleNode ''A-1'' ''A'' StatusUnchanged
                  [ArticleNode ''A-2'' ''B'' StatusModified
                     [ArticleNode [] ''Draft'' StatusNewLocal [] ''A/Draft.md''] ''A/B.md'',
                   ArticleNode ''A-3'' ''C'' StatusDeleted [] []] ''A.md'',
                ArticleNode [] ''Notes'' StatusNewLocal [] ''X/Y.md'',
                ArticleNode [] ''Notes'' StatusNewLocal [] ''Notes.md''])"
    by code_simp
  show ?thesis
    using C4_new_local [of "''Notes.md''" serverNodes ?notes "hd serverNodes" "\<lambda>p. None" "[]" "[]"
        plainUnmarshal workingFiles workingTree]
      C4_new_local [of "''X/Y.md''" serverNodes ?notes "hd serverNodes" "\<lambda>p. None" "[]" "[]"
        plainUnmarshal workingFiles workingTree]
      C4_new_local [of "''A/Draft.md''" serverNodes ?draft
        "ArticleNode ''A-2'' ''B'' StatusModified [] ''A/B.md''" "\<lambda>p. None" "[]" ?ks
        plainUnmarshal workingFiles workingTree]
      d1 d2 d3 f2 f3 i dec v run
    by (simp add: newLocalNode_def)
qed

end
